theory Spec2Isabelle
  imports Complex_Main
begin

section \<open>Kelly-criterion Monte Carlo simulator: shallow embedding\<close>

text \<open>
  The numerical core of the package \<^verbatim>\<open>kelly_mc\<close> (modules \<^verbatim>\<open>models\<close>,
  \<^verbatim>\<open>kelly\<close>, \<^verbatim>\<open>engine\<close>, \<^verbatim>\<open>analytics\<close>) as HOL functions.
  Python floats are idealised as \<^typ>\<open>real\<close>: rounding, overflow, infinities and NaN are
  outside the model. Every exception of the source is a value \<open>Inl e\<close> of a sum type.
\<close>

subsection \<open>Exceptions\<close>

datatype error =
    ValueError string
  | IndexError

subsection \<open>models: Scenario, Setup, SimulationConfig\<close>

record Scenario =
  name :: string
  probability :: real
  return_pct :: real

record Setup =
  name :: string
  probability :: real
  scenarios :: "Scenario list"
  kelly_fraction :: "real option"

record SimulationConfig =
  setups :: "Setup list"
  num_simulations :: int
  num_periods :: int
  initial_capital :: real
  default_kelly_fraction :: real
  seed :: "int option"

text \<open>
  \<^verbatim>\<open>not s.strip()\<close>: the string is empty or holds whitespace only. Strings are byte
  lists here, so the whitespace is Python's ASCII whitespace (tab, LF, VT, FF, CR, the
  separators 28 to 31, and space).
\<close>

definition py_isspace :: "char \<Rightarrow> bool" where
  "py_isspace c = (of_char c \<in> {9, 10, 11, 12, 13, 28, 29, 30, 31, 32 :: nat})"

definition strip_is_empty :: "string \<Rightarrow> bool" where
  "strip_is_empty s = list_all py_isspace s"

text \<open>
  \<^verbatim>\<open>np.isclose(a, b, rtol, atol)\<close> is \<open>|a - b| \<le> atol + rtol * |b|\<close>; the source
  passes \<^verbatim>\<open>atol=1e-6\<close> and leaves \<^verbatim>\<open>rtol\<close> at numpy's default \<^verbatim>\<open>1e-05\<close>.
\<close>

definition np_isclose :: "real \<Rightarrow> real \<Rightarrow> real \<Rightarrow> real \<Rightarrow> bool" where
  "np_isclose a b rtol atol = (\<bar>a - b\<bar> \<le> atol + rtol * \<bar>b\<bar>)"

definition default_rtol :: real where
  "default_rtol = 1 / 10 ^ 5"

text \<open>
  The \<^verbatim>\<open>__post_init__\<close> checks, in the order of the source. The messages are the
  fixed part of the source's messages (the formatted numbers are left out).
\<close>

definition scenario_post_init :: "Scenario \<Rightarrow> error + unit" where
  "scenario_post_init s =
     (if \<not> (0 \<le> Scenario.probability s \<and> Scenario.probability s \<le> 1)
        then Inl (ValueError ''Probability must be in [0, 1]'')
      else if return_pct s \<le> - 1
        then Inl (ValueError ''Return must be > -100%'')
      else if strip_is_empty (Scenario.name s)
        then Inl (ValueError ''Scenario name cannot be empty'')
      else Inr ())"

definition setup_post_init :: "Setup \<Rightarrow> error + unit" where
  "setup_post_init s =
     (if strip_is_empty (Setup.name s)
        then Inl (ValueError ''Setup name cannot be empty'')
      else if \<not> (0 < Setup.probability s \<and> Setup.probability s \<le> 1)
        then Inl (ValueError ''Setup probability must be in (0, 1]'')
      else if length (scenarios s) < 2
        then Inl (ValueError ''Setup must have at least 2 scenarios'')
      else
        let total = sum_list (map Scenario.probability (scenarios s)) in
        if \<not> np_isclose total 1 default_rtol (1 / 10 ^ 6)
          then Inl (ValueError ''Scenario probabilities must sum to 1.0'')
        else if kelly_fraction s \<noteq> None \<and> the (kelly_fraction s) \<le> 0
          then Inl (ValueError ''Per-setup kelly_fraction must be positive'')
        else Inr ())"

definition config_post_init :: "SimulationConfig \<Rightarrow> error + unit" where
  "config_post_init c =
     (if length (setups c) = 0
        then Inl (ValueError ''At least one setup is required'')
      else
        let total = sum_list (map Setup.probability (setups c)) in
        if \<not> np_isclose total 1 default_rtol (1 / 10 ^ 6)
          then Inl (ValueError ''Setup probabilities must sum to 1.0'')
        else if num_simulations c < 1
          then Inl (ValueError ''Number of simulations must be >= 1'')
        else if num_periods c < 1
          then Inl (ValueError ''Number of periods must be >= 1'')
        else if initial_capital c \<le> 0
          then Inl (ValueError ''Initial capital must be positive'')
        else if default_kelly_fraction c \<le> 0
          then Inl (ValueError ''default_kelly_fraction must be positive'')
        else Inr ())"


definition new_Setup :: "string \<Rightarrow> real \<Rightarrow> Scenario list \<Rightarrow> real option \<Rightarrow> error + Setup" where
  "new_Setup n p scs k =
     (let s = \<lparr>Setup.name = n, Setup.probability = p, scenarios = scs, kelly_fraction = k\<rparr>
      in case setup_post_init s of Inl e \<Rightarrow> Inl e | Inr _ \<Rightarrow> Inr s)"


text \<open>
  The objects that exist: a Scenario, Setup or SimulationConfig whose own checks passed
  and whose members are objects that exist.
\<close>

definition valid_scenario :: "Scenario \<Rightarrow> bool" where
  "valid_scenario s = (scenario_post_init s = Inr ())"

definition valid_setup :: "Setup \<Rightarrow> bool" where
  "valid_setup s = (setup_post_init s = Inr () \<and> list_all valid_scenario (scenarios s))"

definition valid_config :: "SimulationConfig \<Rightarrow> bool" where
  "valid_config c = (config_post_init c = Inr () \<and> list_all valid_setup (setups c))"

definition get_effective_kelly :: "SimulationConfig \<Rightarrow> Setup \<Rightarrow> real" where
  "get_effective_kelly c s =
     (case kelly_fraction s of Some k \<Rightarrow> k | None \<Rightarrow> default_kelly_fraction c)"

record kelly_info =
  setup_name :: string
  optimal_fraction :: real
  expected_log_growth :: real
  expected_return :: real
  variance :: real
  edge :: real
  odds_description :: string

subsection \<open>kelly: the optimal fraction\<close>

text \<open>
  What the module takes from outside the repository: scipy's bounded scalar search
  (the iteration of \<^verbatim>\<open>minimize_scalar(method="bounded")\<close>, which returns the point it
  settles on and the objective there) and Python's percent formatting of a float
  (\<^verbatim>\<open>:.0%\<close> and \<^verbatim>\<open>:.1%\<close>). They are parameters of the model.
\<close>

record optimize_result =
  res_x :: real
  res_fun :: real

record pylib =
  bounded_search :: "(real \<Rightarrow> real) \<Rightarrow> real \<Rightarrow> real \<Rightarrow> optimize_result"
  format_pct0 :: "real \<Rightarrow> string"
  format_pct1 :: "real \<Rightarrow> string"

text \<open>
  \<^verbatim>\<open>minimize_scalar(f, bounds=(lo, hi), method="bounded")\<close>: scipy refuses bounds in
  the wrong order with a ValueError before it searches.
\<close>

definition minimize_scalar :: "pylib \<Rightarrow> (real \<Rightarrow> real) \<Rightarrow> real \<Rightarrow> real \<Rightarrow> error + optimize_result" where
  "minimize_scalar lib f lo hi =
     (if lo > hi then Inl (ValueError ''The lower bound exceeds the upper bound.'')
      else Inr (bounded_search lib f lo hi))"

text \<open>The search stays inside its bounds: the documented contract of the bounded method.\<close>

definition search_within_bounds :: "pylib \<Rightarrow> bool" where
  "search_within_bounds lib =
     (\<forall>f lo hi. lo \<le> hi \<longrightarrow>
        lo \<le> res_x (bounded_search lib f lo hi) \<and> res_x (bounded_search lib f lo hi) \<le> hi)"

definition np_dot :: "real list \<Rightarrow> real list \<Rightarrow> real" where
  "np_dot xs ys = sum_list (map (\<lambda>(x, y). x * y) (zip xs ys))"

text \<open>\<^verbatim>\<open>returns.min()\<close>: a ValueError on an empty array.\<close>

definition np_min :: "real list \<Rightarrow> error + real" where
  "np_min xs =
     (case xs of
        [] \<Rightarrow> Inl (ValueError ''zero-size array to reduction operation minimum'')
      | y # ys \<Rightarrow> Inr (fold min ys y))"

fun join :: "string \<Rightarrow> string list \<Rightarrow> string" where
  "join sep [] = []"
| "join sep [x] = x"
| "join sep (x # y # ys) = x @ sep @ join sep (y # ys)"

definition build_odds_description :: "pylib \<Rightarrow> Setup \<Rightarrow> string" where
  "build_odds_description lib s =
     join ''; ''
       (map (\<lambda>sc. Scenario.name sc @ '': '' @ format_pct0 lib (Scenario.probability sc)
                  @ '' chance of '' @ (if return_pct sc \<ge> 0 then ''+'' else [])
                  @ format_pct1 lib (return_pct sc))
            (scenarios s))"

definition neg_expected_log_growth :: "real list \<Rightarrow> real list \<Rightarrow> real \<Rightarrow> real" where
  "neg_expected_log_growth probs returns f =
     - np_dot probs (map (\<lambda>r. ln (1 + f * r)) returns)"

definition compute_kelly_fraction :: "pylib \<Rightarrow> Setup \<Rightarrow> error + kelly_info" where
  "compute_kelly_fraction lib s =
     (let probs = map Scenario.probability (scenarios s);
          returns = map return_pct (scenarios s);
          exp_ret = np_dot probs returns;
          var = np_dot probs (map (\<lambda>r. (r - exp_ret) ^ 2) returns)
      in if exp_ret \<le> 0 then
           Inr \<lparr>setup_name = Setup.name s, optimal_fraction = 0, expected_log_growth = 0,
                expected_return = exp_ret, variance = var, edge = exp_ret,
                odds_description = build_odds_description lib s\<rparr>
         else
           (case np_min returns of
              Inl e \<Rightarrow> Inl e
            | Inr min_return \<Rightarrow>
                let f_max = (if min_return < 0 then - 1 / min_return - 1 / 10 ^ 9 else 10) in
                (case minimize_scalar lib (neg_expected_log_growth probs returns) 0 f_max of
                   Inl e \<Rightarrow> Inl e
                 | Inr result \<Rightarrow>
                     let clamp = (res_x result < 1 / 10 ^ 8);
                         optimal_f = (if clamp then 0 else res_x result);
                         growth = (if clamp then 0 else - res_fun result)
                     in Inr \<lparr>setup_name = Setup.name s, optimal_fraction = optimal_f,
                             expected_log_growth = growth, expected_return = exp_ret,
                             variance = var, edge = exp_ret,
                             odds_description = build_odds_description lib s\<rparr>)))"

fun blended_loop :: "pylib \<Rightarrow> real \<Rightarrow> Setup list \<Rightarrow> error + real" where
  "blended_loop lib weighted_sum [] = Inr weighted_sum"
| "blended_loop lib weighted_sum (s # ss) =
     (case compute_kelly_fraction lib s of
        Inl e \<Rightarrow> Inl e
      | Inr info \<Rightarrow>
          blended_loop lib (weighted_sum + Setup.probability s * optimal_fraction info) ss)"

definition compute_blended_kelly :: "pylib \<Rightarrow> Setup list \<Rightarrow> error + real" where
  "compute_blended_kelly lib sts = blended_loop lib 0 sts"

text \<open>A Python float that is either finite or \<^verbatim>\<open>float("-inf")\<close>.\<close>

datatype pyfloat = NegInf | Finite real

definition expected_log_growth_at :: "Setup \<Rightarrow> real \<Rightarrow> pyfloat" where
  "expected_log_growth_at s fraction =
     (let probs = map Scenario.probability (scenarios s);
          returns = map return_pct (scenarios s);
          terms = map (\<lambda>r. 1 + fraction * r) returns
      in if list_ex (\<lambda>t. t \<le> 0) terms then NegInf
         else Finite (np_dot probs (map ln terms)))"

subsection \<open>engine: the random generator\<close>

text \<open>
  numpy's generator is outside the repository: a bit generator is a state type \<open>'g\<close>, the
  state a seed gives, and the step that yields one double of \<^verbatim>\<open>rng.random\<close> and the next
  state. \<^verbatim>\<open>np.random.default_rng(seed)\<close> takes its state from the seed when there is one
  (numpy refuses a negative seed with a ValueError) and from the entropy of the operating
  system otherwise; that entropy is an input of the model.
\<close>

record 'g bit_generator =
  from_seed :: "nat \<Rightarrow> 'g"
  next_double :: "'g \<Rightarrow> real \<times> 'g"

definition default_rng :: "'g bit_generator \<Rightarrow> 'g \<Rightarrow> int option \<Rightarrow> error + 'g" where
  "default_rng bg entropy sd =
     (case sd of
        None \<Rightarrow> Inr entropy
      | Some n \<Rightarrow>
          if n < 0 then Inl (ValueError ''expected non-negative integer'')
          else Inr (from_seed bg (nat n)))"

text \<open>The contract of \<^verbatim>\<open>rng.random\<close>: every double lies in the half-open interval [0, 1).\<close>

definition uniform01 :: "'g bit_generator \<Rightarrow> bool" where
  "uniform01 bg = (\<forall>g. 0 \<le> fst (next_double bg g) \<and> fst (next_double bg g) < 1)"

text \<open>\<^verbatim>\<open>rng.random(n)\<close>: \<open>n\<close> doubles in the order drawn, and the state after them.\<close>

fun rng_random :: "'g bit_generator \<Rightarrow> nat \<Rightarrow> 'g \<Rightarrow> real list \<times> 'g" where
  "rng_random bg 0 g = ([], g)"
| "rng_random bg (Suc n) g =
     (case next_double bg g of
        (u, g1) \<Rightarrow> (case rng_random bg n g1 of (us, g2) \<Rightarrow> (u # us, g2)))"

subsection \<open>engine: the inverse-CDF sampler\<close>

fun cumsum_from :: "real \<Rightarrow> real list \<Rightarrow> real list" where
  "cumsum_from acc [] = []"
| "cumsum_from acc (x # xs) = (acc + x) # cumsum_from (acc + x) xs"

definition np_cumsum :: "real list \<Rightarrow> real list" where
  "np_cumsum xs = cumsum_from 0 xs"

text \<open>\<^verbatim>\<open>cumprobs[-1] = 1.0\<close>: an IndexError on an empty array.\<close>

definition set_last :: "real list \<Rightarrow> real \<Rightarrow> error + real list" where
  "set_last xs v = (if xs = [] then Inl IndexError else Inr (butlast xs @ [v]))"

text \<open>
  \<^verbatim>\<open>np.searchsorted(a, v)\<close> with the default \<^verbatim>\<open>side='left'\<close>: the first index \<open>i\<close> with
  \<open>v \<le> a[i]\<close>, the length of \<open>a\<close> when there is none (numpy documents the result for an
  ascending \<open>a\<close>).
\<close>

definition searchsorted :: "real list \<Rightarrow> real \<Rightarrow> nat" where
  "searchsorted a v = length (takeWhile (\<lambda>x. x < v) a)"

text \<open>
  \<^verbatim>\<open>_sample_categorical(rng, probs, size)\<close>. The result is the array in C order (row after
  row), with the state of the generator after the draws; \<open>dims\<close> is the tuple \<^verbatim>\<open>size\<close>,
  and \<^verbatim>\<open>rng.random\<close> refuses a negative dimension.
\<close>

definition sample_categorical ::
  "'g bit_generator \<Rightarrow> 'g \<Rightarrow> real list \<Rightarrow> int list \<Rightarrow> error + (nat list \<times> 'g)" where
  "sample_categorical bg g probs dims =
     (case set_last (np_cumsum probs) 1 of
        Inl e \<Rightarrow> Inl e
      | Inr cumprobs \<Rightarrow>
          if list_ex (\<lambda>d. d < 0) dims
            then Inl (ValueError ''negative dimensions are not allowed'')
          else
            (case rng_random bg (nat (prod_list dims)) g of
               (u, g') \<Rightarrow> Inr (map (searchsorted cumprobs) u, g')))"

subsection \<open>engine: arrays\<close>

text \<open>
  \<^verbatim>\<open>np.empty(n)\<close>: an array of whatever the memory holds; the contents are an input of
  the model.
\<close>

definition np_empty :: "(nat \<Rightarrow> 'a) \<Rightarrow> nat \<Rightarrow> 'a list" where
  "np_empty memory n = map memory [0..<n]"

text \<open>
  \<^verbatim>\<open>arr[mask] = vals\<close> on the C-order data: the cells where the mask is True take the
  values in order. numpy raises when the mask has another shape than the array, and when
  the number of values is neither the number of True cells nor 1.
\<close>

text \<open>\<^verbatim>\<open>mask.sum()\<close>: the number of True cells.\<close>

definition count_true :: "bool list \<Rightarrow> nat" where
  "count_true ms = length (filter (\<lambda>b. b) ms)"

fun scatter :: "bool list \<Rightarrow> 'a list \<Rightarrow> 'a list \<Rightarrow> 'a list" where
  "scatter (True # ms) (v # vs) (x # xs) = v # scatter ms vs xs"
| "scatter (False # ms) vs (x # xs) = x # scatter ms vs xs"
| "scatter ms vs xs = xs"

definition mask_assign :: "bool list \<Rightarrow> 'a list \<Rightarrow> 'a list \<Rightarrow> error + 'a list" where
  "mask_assign msk vals arr =
     (let count = count_true msk in
      if length msk \<noteq> length arr then Inl IndexError
      else if length vals = count then Inr (scatter msk vals arr)
      else if length vals = 1 then Inr (scatter msk (replicate count (hd vals)) arr)
      else Inl (ValueError ''cannot assign input values to the output values where the mask is true''))"

text \<open>\<^verbatim>\<open>xs[idx]\<close> with an index array: an IndexError when an index is out of bounds.\<close>

definition take_indices :: "'a list \<Rightarrow> nat list \<Rightarrow> error + 'a list" where
  "take_indices xs idx =
     (if list_all (\<lambda>i. i < length xs) idx then Inr (map (\<lambda>i. xs ! i) idx) else Inl IndexError)"

text \<open>The rows of a C-order array of shape \<open>(n_rows, n_cols)\<close>.\<close>

fun reshape :: "nat \<Rightarrow> nat \<Rightarrow> 'a list \<Rightarrow> 'a list list" where
  "reshape 0 n_cols xs = []"
| "reshape (Suc n_rows) n_cols xs = take n_cols xs # reshape n_rows n_cols (drop n_cols xs)"

fun cumprod_from :: "real \<Rightarrow> real list \<Rightarrow> real list" where
  "cumprod_from acc [] = []"
| "cumprod_from acc (x # xs) = (acc * x) # cumprod_from (acc * x) xs"

definition np_cumprod :: "real list \<Rightarrow> real list" where
  "np_cumprod xs = cumprod_from 1 xs"

subsection \<open>engine: run_simulation\<close>

record SimulationResult =
  portfolio_values :: "real list list"
  period_returns :: "real list list"
  setup_indices :: "nat list list"
  scenario_indices :: "nat list list"
  config :: SimulationConfig

text \<open>
  What a run reads from outside its arguments: the entropy of the operating system (used
  when the config has no seed) and the memory \<^verbatim>\<open>np.empty\<close> hands out.
\<close>

record 'g environment =
  os_entropy :: 'g
  uninit_int :: "nat \<Rightarrow> nat"
  uninit_float :: "nat \<Rightarrow> real"

text \<open>
  The loop over \<^verbatim>\<open>range(len(config.setups))\<close>: \<open>idx\<close> is the array \<^verbatim>\<open>setup_indices\<close>,
  \<open>setup_idx\<close> the loop variable, the list the setups from \<open>setup_idx\<close> on, and the state
  the generator with the two arrays the loop fills.
\<close>

fun scenario_loop ::
  "'g bit_generator \<Rightarrow> nat list \<Rightarrow> nat \<Rightarrow> Setup list \<Rightarrow> 'g \<times> nat list \<times> real list
   \<Rightarrow> error + ('g \<times> nat list \<times> real list)" where
  "scenario_loop bg idx setup_idx [] st = Inr st"
| "scenario_loop bg idx setup_idx (s # rest) (g, sc_indices, returns) =
     (let mask = map (\<lambda>x. x = setup_idx) idx;
          count = count_true mask
      in if count = 0 then scenario_loop bg idx (Suc setup_idx) rest (g, sc_indices, returns)
         else
           (case sample_categorical bg g (map Scenario.probability (scenarios s)) [int count] of
              Inl e \<Rightarrow> Inl e
            | Inr (sc_idx, g') \<Rightarrow>
                (case mask_assign mask sc_idx sc_indices of
                   Inl e \<Rightarrow> Inl e
                 | Inr sc_indices' \<Rightarrow>
                     (case take_indices (map return_pct (scenarios s)) sc_idx of
                        Inl e \<Rightarrow> Inl e
                      | Inr vals \<Rightarrow>
                          (case mask_assign mask vals returns of
                             Inl e \<Rightarrow> Inl e
                           | Inr returns' \<Rightarrow>
                               scenario_loop bg idx (Suc setup_idx) rest
                                 (g', sc_indices', returns'))))))"

definition run_simulation ::
  "'g bit_generator \<Rightarrow> 'g environment \<Rightarrow> SimulationConfig \<Rightarrow> error + SimulationResult" where
  "run_simulation bg env cfg =
     (case default_rng bg (os_entropy env) (seed cfg) of
        Inl e \<Rightarrow> Inl e
      | Inr rng \<Rightarrow>
          let n_sims = nat (num_simulations cfg);
              n_periods = nat (num_periods cfg);
              setup_probs = map Setup.probability (setups cfg);
              kelly_fractions = map (get_effective_kelly cfg) (setups cfg)
          in
          (case sample_categorical bg rng setup_probs [num_simulations cfg, num_periods cfg] of
             Inl e \<Rightarrow> Inl e
           | Inr (idx, rng1) \<Rightarrow>
               (case scenario_loop bg idx 0 (setups cfg)
                       (rng1, np_empty (uninit_int env) (n_sims * n_periods),
                        np_empty (uninit_float env) (n_sims * n_periods)) of
                  Inl e \<Rightarrow> Inl e
                | Inr (rng2, sc_indices, returns) \<Rightarrow>
                    (case take_indices kelly_fractions idx of
                       Inl e \<Rightarrow> Inl e
                     | Inr effective_kelly \<Rightarrow>
                         let growth_factors =
                               map (\<lambda>(k, r). 1 + k * r) (zip effective_kelly returns);
                             cum_growth =
                               map np_cumprod (reshape n_sims n_periods growth_factors);
                             values =
                               map (\<lambda>row. initial_capital cfg
                                            # map (\<lambda>c. initial_capital cfg * c) row)
                                   cum_growth
                         in Inr \<lparr>portfolio_values = values,
                                 period_returns = reshape n_sims n_periods returns,
                                 setup_indices = reshape n_sims n_periods idx,
                                 scenario_indices = reshape n_sims n_periods sc_indices,
                                 config = cfg\<rparr>))))"

subsection \<open>analytics: the longest run of True per row\<close>

text \<open>
  \<^verbatim>\<open>np.diff(row.astype(np.int8))\<close>: the differences of neighbouring cells, each
  -1, 0 or 1.
\<close>

definition astype_int8 :: "bool list \<Rightarrow> int list" where
  "astype_int8 row = map (\<lambda>b. if b then 1 else 0) row"

fun np_diff :: "int list \<Rightarrow> int list" where
  "np_diff [] = []"
| "np_diff [x] = []"
| "np_diff (x # y # ys) = (y - x) # np_diff (y # ys)"

text \<open>\<^verbatim>\<open>np.where(d == v)[0]\<close>: the positions of \<open>d\<close> that hold \<open>v\<close>, ascending.
  \<open>where_from k\<close> numbers the positions from \<open>k\<close>.\<close>

fun where_from :: "int \<Rightarrow> int \<Rightarrow> int list \<Rightarrow> int list" where
  "where_from k v [] = []"
| "where_from k v (d # ds) =
     (if d = v then k # where_from (k + 1) v ds else where_from (k + 1) v ds)"

definition np_where_eq :: "int list \<Rightarrow> int \<Rightarrow> int list" where
  "np_where_eq d v = where_from 0 v d"

text \<open>
  \<^verbatim>\<open>ends - starts\<close> on one-dimensional arrays: elementwise when the lengths agree,
  broadcast when one side has length 1, a ValueError otherwise.
\<close>

definition np_subtract :: "int list \<Rightarrow> int list \<Rightarrow> error + int list" where
  "np_subtract xs ys =
     (if length xs = length ys then Inr (map (\<lambda>(x, y). x - y) (zip xs ys))
      else if length ys = 1 then Inr (map (\<lambda>x. x - hd ys) xs)
      else if length xs = 1 then Inr (map (\<lambda>y. hd xs - y) ys)
      else Inl (ValueError ''operands could not be broadcast together''))"

text \<open>\<^verbatim>\<open>lengths.max()\<close>: a ValueError on an empty array.\<close>

definition np_max :: "int list \<Rightarrow> error + int" where
  "np_max xs =
     (case xs of
        [] \<Rightarrow> Inl (ValueError ''zero-size array to reduction operation maximum'')
      | y # ys \<Rightarrow> Inr (fold max ys y))"

text \<open>
  The body of the loop of \<^verbatim>\<open>_max_consecutive_true\<close> for one row; \<open>n_cols\<close> is
  \<^verbatim>\<open>arr.shape[1]\<close>. The value is what the row leaves in \<^verbatim>\<open>result[i]\<close>
  (0 where the loop continues or skips the assignment).
\<close>

definition max_consecutive_true_row :: "nat \<Rightarrow> bool list \<Rightarrow> error + int" where
  "max_consecutive_true_row n_cols row =
     (if \<not> (\<exists>b \<in> set row. b) then Inr 0
      else
        let d = np_diff (astype_int8 row);
            starts0 = map (\<lambda>i. i + 1) (np_where_eq d 1);
            ends0 = map (\<lambda>i. i + 1) (np_where_eq d (- 1));
            starts = (if hd row then [0] @ starts0 else starts0);
            ends = (if last row then ends0 @ [int n_cols] else ends0)
        in if length starts > 0 \<and> length ends > 0
           then (case np_subtract ends starts of
                   Inl e \<Rightarrow> Inl e
                 | Inr lengths \<Rightarrow> np_max lengths)
           else Inr 0)"

fun rows_loop :: "nat \<Rightarrow> bool list list \<Rightarrow> error + int list" where
  "rows_loop n_cols [] = Inr []"
| "rows_loop n_cols (row # rows) =
     (case max_consecutive_true_row n_cols row of
        Inl e \<Rightarrow> Inl e
      | Inr v \<Rightarrow>
          (case rows_loop n_cols rows of
             Inl e \<Rightarrow> Inl e
           | Inr vs \<Rightarrow> Inr (v # vs)))"

text \<open>
  \<^verbatim>\<open>_max_consecutive_true(arr)\<close> for an array of shape \<open>(length arr, n_cols)\<close>.
\<close>

definition max_consecutive_true :: "nat \<Rightarrow> bool list list \<Rightarrow> error + int list" where
  "max_consecutive_true n_cols arr = rows_loop n_cols arr"

text \<open>
  The specification's reading of the helper (section 9 of the specification): a linear
  scan of the row that tracks the current and the best run length.
\<close>

fun scan_run :: "nat \<Rightarrow> nat \<Rightarrow> bool list \<Rightarrow> nat" where
  "scan_run cur best [] = max cur best"
| "scan_run cur best (x # xs) =
     (if x then scan_run (Suc cur) best xs else scan_run 0 (max cur best) xs)"

definition longest_run :: "bool list \<Rightarrow> nat" where
  "longest_run row = scan_run 0 0 row"

subsection \<open>Auxiliary functions for the run-length proof\<close>

text \<open>
  The start and end positions of the maximal runs of True, computed in one pass with the
  previous cell carried along: \<open>starts_g k prev xs\<close> lists the positions (counted from
  \<open>k\<close>) where a run begins, \<open>ends_g k prev xs\<close> the positions one past where a run
  stops, a run still open at the end of the row included.
\<close>

fun starts_g :: "int \<Rightarrow> bool \<Rightarrow> bool list \<Rightarrow> int list" where
  "starts_g k prev [] = []"
| "starts_g k prev (x # xs) =
     (if x \<and> \<not> prev then k # starts_g (k + 1) x xs else starts_g (k + 1) x xs)"

fun ends_g :: "int \<Rightarrow> bool \<Rightarrow> bool list \<Rightarrow> int list" where
  "ends_g k prev [] = (if prev then [k] else [])"
| "ends_g k prev (x # xs) =
     (if prev \<and> \<not> x then k # ends_g (k + 1) x xs else ends_g (k + 1) x xs)"

text \<open>The largest difference of paired ends and starts, from a lower bound \<open>b\<close>.\<close>

definition maxdiff :: "int \<Rightarrow> int list \<Rightarrow> int list \<Rightarrow> int" where
  "maxdiff b es ss = fold max (map (\<lambda>(e, s). e - s) (zip es ss)) b"

subsection \<open>Auxiliary definitions for the proofs about kelly and models\<close>

text \<open>The upper bound of the search: the expression the source assigns to \<^verbatim>\<open>f_max\<close>.\<close>

definition f_max_of :: "real \<Rightarrow> real" where
  "f_max_of min_return = (if min_return < 0 then - 1 / min_return - 1 / 10 ^ 9 else 10)"


text \<open>The records the constructors store.\<close>

definition mk_scenario :: "string \<Rightarrow> real \<Rightarrow> real \<Rightarrow> Scenario" where
  "mk_scenario n p r = \<lparr>Scenario.name = n, Scenario.probability = p, return_pct = r\<rparr>"

definition mk_setup :: "string \<Rightarrow> real \<Rightarrow> Scenario list \<Rightarrow> real option \<Rightarrow> Setup" where
  "mk_setup n p scs k =
     \<lparr>Setup.name = n, Setup.probability = p, scenarios = scs, kelly_fraction = k\<rparr>"

definition mk_config ::
  "Setup list \<Rightarrow> int \<Rightarrow> int \<Rightarrow> real \<Rightarrow> real \<Rightarrow> int option \<Rightarrow> SimulationConfig" where
  "mk_config sts n_sims n_periods capital dflt sd =
     \<lparr>setups = sts, num_simulations = n_sims, num_periods = n_periods,
      initial_capital = capital, default_kelly_fraction = dflt, seed = sd\<rparr>"

text \<open>
  Objects of the test suite (\<^verbatim>\<open>test_kelly.py\<close>): the negative-edge bet, the two-outcome bet
  whose closed-form optimum is 4 (with the probability of the Setup left open), and the Setup of
  the infeasible-fraction test.
\<close>

definition bad_bet :: Setup where
  "bad_bet = mk_setup ''BadBet'' 1
     [mk_scenario ''Win'' (3 / 10) (1 / 10), mk_scenario ''Loss'' (7 / 10) (- 1 / 10)] None"

definition two_outcome :: "real \<Rightarrow> Setup" where
  "two_outcome p = mk_setup ''TwoOutcome'' p
     [mk_scenario ''Win'' (6 / 10) (2 / 10), mk_scenario ''Loss'' (4 / 10) (- 1 / 10)] None"

definition infeasible_setup :: Setup where
  "infeasible_setup = mk_setup ''Test'' 1
     [mk_scenario ''Win'' (5 / 10) (1 / 10), mk_scenario ''Loss'' (5 / 10) (- 5 / 10)] None"

text \<open>
  Two stand-ins for the library: a search that returns the midpoint of its bounds, and a
  search that settles on a given point \<open>x\<close> (with \<open>x = 4\<close>, the exact maximiser of the
  two-outcome bet, which the repository's test expects scipy to reach to three decimals).
\<close>

definition midpoint_lib :: pylib where
  "midpoint_lib =
     \<lparr>bounded_search = (\<lambda>f lo hi. \<lparr>res_x = (lo + hi) / 2, res_fun = f ((lo + hi) / 2)\<rparr>),
      format_pct0 = (\<lambda>v. []), format_pct1 = (\<lambda>v. [])\<rparr>"

definition point_lib :: "real \<Rightarrow> pylib" where
  "point_lib x =
     \<lparr>bounded_search = (\<lambda>f lo hi. \<lparr>res_x = x, res_fun = f x\<rparr>),
      format_pct0 = (\<lambda>v. []), format_pct1 = (\<lambda>v. [])\<rparr>"

subsection \<open>Properties stated about a run\<close>

text \<open>A matrix (a list of rows) of shape \<open>(r, c)\<close>.\<close>

definition has_shape :: "'a list list \<Rightarrow> nat \<Rightarrow> nat \<Rightarrow> bool" where
  "has_shape m r c \<longleftrightarrow> length m = r \<and> (\<forall>row \<in> set m. length row = c)"

text \<open>
  Every outcome of every setup leaves capital: \<open>1 + f r > 0\<close> for the effective Kelly
  fraction \<open>f\<close> of the setup and every scenario return \<open>r\<close> of it.
\<close>

definition solvent_config :: "SimulationConfig \<Rightarrow> bool" where
  "solvent_config cfg \<longleftrightarrow>
     (\<forall>s \<in> set (setups cfg). \<forall>sc \<in> set (scenarios s).
        0 < 1 + get_effective_kelly cfg s * return_pct sc)"

subsection \<open>Auxiliary definitions for the proofs about the engine\<close>

text \<open>The number of True cells before position \<open>p\<close>: where a masked cell finds its value.\<close>

definition rank :: "bool list \<Rightarrow> nat \<Rightarrow> nat" where
  "rank ms p = count_true (take p ms)"

text \<open>
  A cell is consistent: its setup index and its scenario index are in range and its raw
  return is the return of that scenario. The invariant of the loop over the setups: the
  arrays keep their length, and every cell whose setup index lies below the loop variable is
  consistent.
\<close>

definition cell_ok :: "Setup list \<Rightarrow> nat \<Rightarrow> nat \<Rightarrow> real \<Rightarrow> bool" where
  "cell_ok sts s k r \<longleftrightarrow>
     s < length sts \<and> k < length (scenarios (sts ! s)) \<and> r = return_pct (scenarios (sts ! s) ! k)"

definition loop_inv :: "Setup list \<Rightarrow> nat list \<Rightarrow> nat \<Rightarrow> nat list \<Rightarrow> real list \<Rightarrow> bool" where
  "loop_inv sts idx k sc ret \<longleftrightarrow>
     length sc = length idx \<and> length ret = length idx \<and>
     (\<forall>p < length idx. idx ! p < k \<longrightarrow> cell_ok sts (idx ! p) (sc ! p) (ret ! p))"

text \<open>The growth factors as rows, and the result a run puts together from its arrays.\<close>

definition growth_rows :: "SimulationConfig \<Rightarrow> nat list \<Rightarrow> real list \<Rightarrow> real list list" where
  "growth_rows cfg idx ret =
     reshape (nat (num_simulations cfg)) (nat (num_periods cfg))
       (map (\<lambda>(k, r). 1 + k * r)
          (zip (map (\<lambda>i. map (get_effective_kelly cfg) (setups cfg) ! i) idx) ret))"

definition assemble_result ::
  "SimulationConfig \<Rightarrow> nat list \<Rightarrow> nat list \<Rightarrow> real list \<Rightarrow> SimulationResult" where
  "assemble_result cfg idx sc ret =
     \<lparr>portfolio_values =
        map (\<lambda>row. initial_capital cfg # map (\<lambda>c. initial_capital cfg * c) row)
          (map np_cumprod (growth_rows cfg idx ret)),
      period_returns = reshape (nat (num_simulations cfg)) (nat (num_periods cfg)) ret,
      setup_indices = reshape (nat (num_simulations cfg)) (nat (num_periods cfg)) idx,
      scenario_indices = reshape (nat (num_simulations cfg)) (nat (num_periods cfg)) sc,
      config = cfg\<rparr>"

definition finish_run ::
  "SimulationConfig \<Rightarrow> nat list \<Rightarrow> nat list \<Rightarrow> real list \<Rightarrow> error + SimulationResult" where
  "finish_run cfg idx sc ret =
     (case take_indices (map (get_effective_kelly cfg) (setups cfg)) idx of
        Inl e \<Rightarrow> Inl e
      | Inr effective_kelly \<Rightarrow>
          Inr \<lparr>portfolio_values =
                 map (\<lambda>row. initial_capital cfg # map (\<lambda>c. initial_capital cfg * c) row)
                   (map np_cumprod
                      (reshape (nat (num_simulations cfg)) (nat (num_periods cfg))
                         (map (\<lambda>(k, r). 1 + k * r) (zip effective_kelly ret)))),
               period_returns = reshape (nat (num_simulations cfg)) (nat (num_periods cfg)) ret,
               setup_indices = reshape (nat (num_simulations cfg)) (nat (num_periods cfg)) idx,
               scenario_indices = reshape (nat (num_simulations cfg)) (nat (num_periods cfg)) sc,
               config = cfg\<rparr>)"

definition start_arrays :: "'g environment \<Rightarrow> SimulationConfig \<Rightarrow> nat list \<times> real list" where
  "start_arrays env cfg =
     (np_empty (uninit_int env) (nat (num_simulations cfg) * nat (num_periods cfg)),
      np_empty (uninit_float env) (nat (num_simulations cfg) * nat (num_periods cfg)))"

text \<open>
  Two arrays agree on the cells whose setup index lies below \<open>k\<close>; two outcomes of the
  loop are the same error, or the same generator state with arrays that agree so.
\<close>

definition agree_below :: "nat list \<Rightarrow> nat \<Rightarrow> 'a list \<Rightarrow> 'a list \<Rightarrow> bool" where
  "agree_below idx k xs ys \<longleftrightarrow>
     length xs = length idx \<and> length ys = length idx \<and>
     (\<forall>p < length idx. idx ! p < k \<longrightarrow> xs ! p = ys ! p)"

definition same_outcome ::
  "nat list \<Rightarrow> nat \<Rightarrow> error + ('g \<times> nat list \<times> real list)
   \<Rightarrow> error + ('g \<times> nat list \<times> real list) \<Rightarrow> bool" where
  "same_outcome idx k r1 r2 \<longleftrightarrow>
     (\<exists>e. r1 = Inl e \<and> r2 = Inl e)
     \<or> (\<exists>g a1 b1 a2 b2. r1 = Inr (g, a1, b1) \<and> r2 = Inr (g, a2, b2)
           \<and> agree_below idx k a1 a2 \<and> agree_below idx k b1 b2)"

text \<open>
  Objects for the concrete runs: a generator that yields the same double at every draw, an
  environment of zeros, a small linear congruential generator, a config of two
  setups (one with an override of the Kelly fraction), a config whose only drawn scenario
  loses 60 percent at a Kelly fraction of 2, and two environments that differ in the
  entropy and in the memory they hand out.
\<close>

definition const_gen :: "real \<Rightarrow> unit bit_generator" where
  "const_gen u = \<lparr>from_seed = (\<lambda>n. ()), next_double = (\<lambda>g. (u, g))\<rparr>"


definition lcg_gen :: "nat bit_generator" where
  "lcg_gen = \<lparr>from_seed = (\<lambda>n. n mod 1000),
              next_double = (\<lambda>g. (real (g mod 1000) / 1000, (21 * g + 7) mod 1000))\<rparr>"

definition demo_config :: SimulationConfig where
  "demo_config = mk_config
     [two_outcome (6 / 10),
      mk_setup ''Bear'' (4 / 10)
        [mk_scenario ''Win'' (3 / 10) (15 / 100), mk_scenario ''Loss'' (7 / 10) (- 2 / 10)]
        (Some (1 / 2))]
     2 3 100 (1 / 4) (Some 42)"


definition env_a :: "nat environment" where
  "env_a = \<lparr>os_entropy = 1, uninit_int = (\<lambda>i. 0), uninit_float = (\<lambda>i. 0)\<rparr>"

definition env_b :: "nat environment" where
  "env_b = \<lparr>os_entropy = 999, uninit_int = (\<lambda>i. i + 5), uninit_float = (\<lambda>i. - 3)\<rparr>"

section \<open>Verification\<close>

subsection \<open>The boundary-difference computation is the longest run\<close>

lemma astype_int8_Cons: "astype_int8 (x # xs) = (if x then 1 else 0) # astype_int8 xs"
  by (simp add: astype_int8_def)

lemma starts_diff:
  "where_from k 1 (np_diff (astype_int8 (x # xs))) = starts_g k x xs"
proof (induction xs arbitrary: k x)
  case Nil
  show ?case by (simp add: astype_int8_def)
next
  case (Cons y ys)
  have ih: "where_from (k + 1) 1 (np_diff (astype_int8 (y # ys))) = starts_g (k + 1) y ys"
    by (rule Cons.IH)
  have "np_diff (astype_int8 (x # y # ys)) =
        ((if y then 1 else 0) - (if x then 1 else 0)) # np_diff (astype_int8 (y # ys))"
    by (simp add: astype_int8_Cons)
  then show ?case using ih by (cases x; cases y) simp_all
qed

lemma ends_diff:
  "where_from k (- 1) (np_diff (astype_int8 (x # xs))) @
     (if last (x # xs) then [k + int (length xs)] else []) = ends_g k x xs"
proof (induction xs arbitrary: k x)
  case Nil
  show ?case by (simp add: astype_int8_def)
next
  case (Cons y ys)
  have ih: "where_from (k + 1) (- 1) (np_diff (astype_int8 (y # ys))) @
     (if last (y # ys) then [k + 1 + int (length ys)] else []) = ends_g (k + 1) y ys"
    by (rule Cons.IH)
  have d: "np_diff (astype_int8 (x # y # ys)) =
        ((if y then 1 else 0) - (if x then 1 else 0)) # np_diff (astype_int8 (y # ys))"
    by (simp add: astype_int8_Cons)
  have l: "last (x # y # ys) = last (y # ys)" by simp
  have n: "k + int (length (y # ys)) = k + 1 + int (length ys)" by simp
  show ?case unfolding d l n using ih by (cases x; cases y) simp_all
qed

lemma length_ends_g:
  "length (ends_g k prev xs) = length (starts_g k prev xs) + (if prev then 1 else 0)"
  by (induction xs arbitrary: k prev) auto

lemma maxdiff_Nil: "maxdiff b [] ss = b" "maxdiff b es [] = b"
  by (simp_all add: maxdiff_def)

lemma maxdiff_Cons: "maxdiff b (e # es) (s # ss) = maxdiff (max (e - s) b) es ss"
  by (simp add: maxdiff_def)

lemma maxdiff_scan:
  "s \<le> k \<Longrightarrow>
   maxdiff (int b) (ends_g k prev xs) ((if prev then [s] else []) @ starts_g k prev xs) =
   int (scan_run (if prev then nat (k - s) else 0) b xs)"
proof (induction xs arbitrary: k prev s b)
  case Nil
  then show ?case by (cases prev) (simp_all add: maxdiff_Nil maxdiff_Cons)
next
  case (Cons x xs)
  show ?case
  proof (cases prev)
    case True
    note p = this
    show ?thesis
    proof (cases x)
      case True
      have "s \<le> k + 1" using Cons.prems by simp
      from Cons.IH[OF this, of b True]
      have "maxdiff (int b) (ends_g (k + 1) True xs) (s # starts_g (k + 1) True xs) =
            int (scan_run (nat (k + 1 - s)) b xs)" by simp
      moreover have "nat (k + 1 - s) = Suc (nat (k - s))" using Cons.prems by simp
      ultimately show ?thesis using p True by simp
    next
      case False
      have "k + 1 \<le> k + 1" by simp
      from Cons.IH[OF this, of "max (nat (k - s)) b" False]
      have "maxdiff (int (max (nat (k - s)) b)) (ends_g (k + 1) False xs) (starts_g (k + 1) False xs) =
            int (scan_run 0 (max (nat (k - s)) b) xs)" by simp
      moreover have "int (max (nat (k - s)) b) = max (k - s) (int b)" using Cons.prems by simp
      ultimately show ?thesis using p False by (simp add: maxdiff_Cons)
    qed
  next
    case False
    note p = this
    show ?thesis
    proof (cases x)
      case True
      have "k \<le> k + 1" by simp
      from Cons.IH[OF this, of b True]
      have "maxdiff (int b) (ends_g (k + 1) True xs) (k # starts_g (k + 1) True xs) =
            int (scan_run (nat (k + 1 - k)) b xs)" by simp
      then show ?thesis using p True by simp
    next
      case False
      have "k + 1 \<le> k + 1" by simp
      from Cons.IH[OF this, of b False]
      show ?thesis using p False by simp
    qed
  qed
qed

lemma where_from_shift: "map (\<lambda>i. i + 1) (where_from k v ds) = where_from (k + 1) v ds"
  by (induction ds arbitrary: k) auto

lemma fold_max_max: "fold max xs (max a b) = max (a::int) (fold max xs b)"
proof (induction xs arbitrary: b)
  case Nil
  show ?case by simp
next
  case (Cons x xs)
  have "fold max (x # xs) (max a b) = fold max xs (max a (max x b))"
    by (simp add: max.left_commute)
  also have "\<dots> = max a (fold max xs (max x b))" by (rule Cons.IH)
  finally show ?case by simp
qed

lemma fold_max_ge: "(b::int) \<le> fold max xs b"
proof (induction xs arbitrary: b)
  case Nil
  show ?case by simp
next
  case (Cons x xs)
  have "b \<le> max x b" by simp
  also have "\<dots> \<le> fold max xs (max x b)" by (rule Cons.IH)
  finally show ?case by simp
qed

lemma scan_run_no_True: "\<forall>x \<in> set xs. \<not> x \<Longrightarrow> scan_run c b xs = max c b"
  by (induction xs arbitrary: c b) auto

lemma scan_run_replicate_True: "scan_run c b (replicate n True @ xs) = scan_run (c + n) b xs"
  by (induction n arbitrary: c) auto

lemma scan_run_ge: "c \<le> scan_run c b xs \<and> b \<le> scan_run c b xs"
proof (induction xs arbitrary: c b)
  case Nil
  show ?case by simp
next
  case (Cons x xs)
  show ?case
  proof (cases x)
    case True
    then show ?thesis using Cons.IH[of "Suc c" b] by simp
  next
    case False
    then show ?thesis using Cons.IH[of 0 "max c b"] by simp
  qed
qed

lemma row_starts:
  "(if x then [0] else []) @ map (\<lambda>i. i + 1) (np_where_eq (np_diff (astype_int8 (x # xs))) 1)
   = starts_g 0 False (x # xs)"
proof -
  have "map (\<lambda>i. i + 1) (np_where_eq (np_diff (astype_int8 (x # xs))) 1)
        = where_from (0 + 1) 1 (np_diff (astype_int8 (x # xs)))"
    unfolding np_where_eq_def by (rule where_from_shift)
  also have "\<dots> = starts_g (0 + 1) x xs" by (rule starts_diff)
  finally show ?thesis by simp
qed

lemma row_ends:
  "map (\<lambda>i. i + 1) (np_where_eq (np_diff (astype_int8 (x # xs))) (- 1)) @
    (if last (x # xs) then [int (length (x # xs))] else [])
   = ends_g 0 False (x # xs)"
proof -
  have "map (\<lambda>i. i + 1) (np_where_eq (np_diff (astype_int8 (x # xs))) (- 1))
        = where_from (0 + 1) (- 1) (np_diff (astype_int8 (x # xs)))"
    unfolding np_where_eq_def by (rule where_from_shift)
  moreover have "int (length (x # xs)) = 0 + 1 + int (length xs)" by simp
  moreover have "where_from (0 + 1) (- 1) (np_diff (astype_int8 (x # xs))) @
     (if last (x # xs) then [0 + 1 + int (length xs)] else []) = ends_g (0 + 1) x xs"
    by (rule ends_diff)
  moreover have "ends_g 0 False (x # xs) = ends_g (0 + 1) x xs" by simp
  ultimately show ?thesis by presburger
qed

lemma np_max_lengths:
  assumes "length es = length ss" "es \<noteq> []" "\<forall>(e, s) \<in> set (zip es ss). s \<le> e"
  shows "np_max (map (\<lambda>(e, s). e - s) (zip es ss)) = Inr (maxdiff 0 es ss)"
proof -
  obtain e es' where es: "es = e # es'" using assms(2) by (cases es) auto
  obtain s ss' where ss: "ss = s # ss'" using assms(1) es by (cases ss) auto
  have "s \<le> e" using assms(3) es ss by simp
  then have "max (e - s) 0 = e - s" by simp
  then show ?thesis by (simp add: es ss np_max_def maxdiff_def)
qed

lemma lengths_nonneg:
  "s \<le> k \<Longrightarrow>
   \<forall>(e, s') \<in> set (zip (ends_g k prev xs) ((if prev then [s] else []) @ starts_g k prev xs)). s' \<le> e"
proof (induction xs arbitrary: k prev s)
  case Nil
  then show ?case by (cases prev) simp_all
next
  case (Cons x xs)
  show ?case
  proof (cases prev)
    case True
    note p = this
    show ?thesis
    proof (cases x)
      case True
      have "s \<le> k + 1" using Cons.prems by simp
      from Cons.IH[OF this, of True] show ?thesis using p True by simp
    next
      case False
      have "k + 1 \<le> k + 1" by simp
      from Cons.IH[OF this, of False] show ?thesis using p False Cons.prems by simp
    qed
  next
    case False
    note p = this
    show ?thesis
    proof (cases x)
      case True
      have "k \<le> k + 1" by simp
      from Cons.IH[OF this, of True] show ?thesis using p True by simp
    next
      case False
      have "k + 1 \<le> k + 1" by simp
      from Cons.IH[OF this, of False] show ?thesis using p False by simp
    qed
  qed
qed

lemma max_consecutive_true_row_correct:
  assumes "length row = n_cols"
  shows "max_consecutive_true_row n_cols row = Inr (int (longest_run row))"
proof (cases "\<exists>b \<in> set row. b")
  case False
  then have "scan_run 0 0 row = 0" using scan_run_no_True[of row 0 0] by simp
  moreover have "max_consecutive_true_row n_cols row = Inr 0"
    unfolding max_consecutive_true_row_def using False by (rule if_P)
  ultimately show ?thesis by (simp add: longest_run_def)
next
  case True
  then obtain x xs where row: "row = x # xs" by (cases row) auto
  define starts where "starts = starts_g 0 False row"
  define ends where "ends = ends_g 0 False row"
  have len: "length ends = length starts"
    unfolding starts_def ends_def by (simp add: length_ends_g)
  have md: "maxdiff 0 ends starts = int (longest_run row)"
    using maxdiff_scan[of 0 0 0 False row] by (simp add: starts_def ends_def longest_run_def)
  have nn: "\<forall>(e, s) \<in> set (zip ends starts). s \<le> e"
    using lengths_nonneg[of 0 0 False row] by (simp add: starts_def ends_def)
  have res: "(if length starts > 0 \<and> length ends > 0
           then (case np_subtract ends starts of
                   Inl e \<Rightarrow> Inl e
                 | Inr lengths \<Rightarrow> np_max lengths)
           else Inr 0) = Inr (int (longest_run row))"
  proof (cases "ends = []")
    case True
    then have "maxdiff 0 ends starts = 0" by (simp add: maxdiff_Nil)
    then show ?thesis using True md by simp
  next
    case False
    then have "starts \<noteq> []" using len by auto
    moreover have "np_subtract ends starts = Inr (map (\<lambda>(e, s). e - s) (zip ends starts))"
      using len by (simp add: np_subtract_def)
    moreover have "np_max (map (\<lambda>(e, s). e - s) (zip ends starts)) = Inr (maxdiff 0 ends starts)"
      using len False nn by (rule np_max_lengths)
    ultimately show ?thesis using False md by simp
  qed
  have s: "(if hd row then [0] @ map (\<lambda>i. i + 1) (np_where_eq (np_diff (astype_int8 row)) 1)
            else map (\<lambda>i. i + 1) (np_where_eq (np_diff (astype_int8 row)) 1)) = starts"
    using row_starts[of x xs] unfolding row starts_def by (cases x) simp_all
  have e: "(if last row then map (\<lambda>i. i + 1) (np_where_eq (np_diff (astype_int8 row)) (- 1)) @ [int n_cols]
            else map (\<lambda>i. i + 1) (np_where_eq (np_diff (astype_int8 row)) (- 1))) = ends"
  proof -
    note re = row_ends[of x xs, folded row]
    have "int (length row) = int n_cols" using assms by simp
    then show ?thesis using re unfolding ends_def by (cases "last row") simp_all
  qed
  show ?thesis
    unfolding max_consecutive_true_row_def Let_def s e using True res by simp
qed

lemma rows_loop_correct:
  "\<forall>row \<in> set arr. length row = n_cols \<Longrightarrow>
   rows_loop n_cols arr = Inr (map (\<lambda>row. int (longest_run row)) arr)"
  by (induction arr) (simp_all add: max_consecutive_true_row_correct)

lemma longest_run_upper: "m \<le> scan_run c b (ys @ replicate m True @ zs)"
proof (induction ys arbitrary: c b)
  case Nil
  have "c + m \<le> scan_run (c + m) b zs" using scan_run_ge by blast
  then show ?case by (simp add: scan_run_replicate_True)
next
  case (Cons y ys)
  then show ?case by simp
qed

lemma scan_run_attained:
  "scan_run c b xs = b
   \<or> (c \<le> scan_run c b xs \<and> (\<exists>zs. xs = replicate (scan_run c b xs - c) True @ zs))
   \<or> (\<exists>ys zs. xs = ys @ replicate (scan_run c b xs) True @ zs)"
proof (induction xs arbitrary: c b)
  case Nil
  show ?case by (cases "c \<le> b") (simp_all add: max_def)
next
  case (Cons x xs)
  show ?case
  proof (cases x)
    case True
    let ?r = "scan_run (Suc c) b xs"
    have r: "scan_run c b (x # xs) = ?r" using True by simp
    consider (a) "?r = b"
      | (b) zs where "Suc c \<le> ?r" "xs = replicate (?r - Suc c) True @ zs"
      | (c) ys zs where "xs = ys @ replicate ?r True @ zs"
      using Cons.IH[of "Suc c" b] by blast
    then show ?thesis
    proof cases
      case a
      then show ?thesis using r by simp
    next
      case b
      have "?r - c = Suc (?r - Suc c)" using b(1) by simp
      then have "x # xs = replicate (?r - c) True @ zs" using b(2) True by simp
      moreover have "c \<le> ?r" using b(1) by simp
      ultimately show ?thesis unfolding r by blast
    next
      case c
      then have "x # xs = (x # ys) @ replicate ?r True @ zs" by simp
      then show ?thesis unfolding r by blast
    qed
  next
    case False
    let ?r = "scan_run 0 (max c b) xs"
    have r: "scan_run c b (x # xs) = ?r" using False by simp
    consider (a) "?r = max c b"
      | (b) zs where "xs = replicate ?r True @ zs"
      | (c) ys zs where "xs = ys @ replicate ?r True @ zs"
      using Cons.IH[of 0 "max c b"] by auto
    then show ?thesis
    proof cases
      case a
      show ?thesis
      proof (cases "c \<le> b")
        case True
        then show ?thesis using a r by (simp add: max_def)
      next
        case False
        then have "?r = c" using a by (simp add: max_def)
        then have "c \<le> ?r \<and> x # xs = replicate (?r - c) True @ (x # xs)" by simp
        then show ?thesis unfolding r by blast
      qed
    next
      case b
      then have "x # xs = [x] @ replicate ?r True @ zs" by simp
      then show ?thesis unfolding r by blast
    next
      case c
      then have "x # xs = (x # ys) @ replicate ?r True @ zs" by simp
      then show ?thesis unfolding r by blast
    qed
  qed
qed

lemma longest_run_is_longest:
  "(\<exists>ys zs. row = ys @ replicate (longest_run row) True @ zs) \<and>
   (\<forall>ys m zs. row = ys @ replicate m True @ zs \<longrightarrow> m \<le> longest_run row)"
proof
  have "row = [] @ replicate 0 True @ row" by simp
  then show "\<exists>ys zs. row = ys @ replicate (longest_run row) True @ zs"
    using scan_run_attained[of 0 0 row] unfolding longest_run_def
    by (metis append_Nil diff_zero)
next
  show "\<forall>ys m zs. row = ys @ replicate m True @ zs \<longrightarrow> m \<le> longest_run row"
    unfolding longest_run_def using longest_run_upper by blast
qed

lemma scan_run_replicate_False:
  "scan_run c b (replicate n False @ xs) = (if n = 0 then scan_run c b xs else scan_run 0 (max c b) xs)"
  by (induction n arbitrary: c b) auto

lemma longest_run_all_False: "longest_run (replicate n False) = 0"
  using scan_run_no_True[of "replicate n False" 0 0] by (simp add: longest_run_def)

lemma longest_run_all_True: "longest_run (replicate n True) = n"
  using scan_run_replicate_True[of 0 0 n "[]"] by (simp add: longest_run_def)

lemma longest_run_first_column: "longest_run (replicate a True @ replicate b False) = a"
  using scan_run_replicate_True[of 0 0 a "replicate b False"]
    scan_run_no_True[of "replicate b False" a 0]
  by (simp add: longest_run_def)

lemma longest_run_last_column: "longest_run (replicate b False @ replicate a True) = a"
  using scan_run_replicate_False[of 0 0 b "replicate a True"] longest_run_all_True[of a]
  by (simp add: longest_run_def)

text \<open>
  Claim C9. For every two-dimensional boolean matrix (every row of length \<open>n_cols\<close>),
  \<^verbatim>\<open>_max_consecutive_true\<close> raises nothing and returns, per row, the length of the
  longest unbroken run of True cells. In particular an all-False row gives 0, an
  all-True row gives the row length, the row [T,T,F,T,T,T] gives 3, and a run that
  touches the first or the last column is counted at its full length.
\<close>

theorem max_consecutive_true_longest_run:
  assumes "\<forall>row \<in> set arr. length row = n_cols"
  shows "max_consecutive_true n_cols arr = Inr (map (\<lambda>row. int (longest_run row)) arr)
    \<and> max_consecutive_true n [replicate n False] = Inr [0]
    \<and> max_consecutive_true n [replicate n True] = Inr [int n]
    \<and> max_consecutive_true 6 [[True, True, False, True, True, True]] = Inr [3]
    \<and> max_consecutive_true (a + b) [replicate a True @ replicate b False] = Inr [int a]
    \<and> max_consecutive_true (b + a) [replicate b False @ replicate a True] = Inr [int a]"
proof -
  have general: "max_consecutive_true k rows = Inr (map (\<lambda>row. int (longest_run row)) rows)"
    if "\<forall>row \<in> set rows. length row = k" for k rows
    unfolding max_consecutive_true_def using that by (rule rows_loop_correct)
  have "max_consecutive_true n [replicate n False] = Inr [0]"
    using general[of "[replicate n False]" n] by (simp add: longest_run_all_False)
  moreover have "max_consecutive_true n [replicate n True] = Inr [int n]"
    using general[of "[replicate n True]" n] by (simp add: longest_run_all_True)
  moreover have "max_consecutive_true 6 [[True, True, False, True, True, True]] = Inr [3]"
    using general[of "[[True, True, False, True, True, True]]" 6]
    by (simp add: longest_run_def)
  moreover have "max_consecutive_true (a + b) [replicate a True @ replicate b False] = Inr [int a]"
    using general[of "[replicate a True @ replicate b False]" "a + b"]
    by (simp add: longest_run_first_column)
  moreover have "max_consecutive_true (b + a) [replicate b False @ replicate a True] = Inr [int a]"
    using general[of "[replicate b False @ replicate a True]" "b + a"]
    by (simp add: longest_run_last_column)
  ultimately show ?thesis using general[OF assms] by simp
qed

theorem max_consecutive_true_longest_run_witness:
  "max_consecutive_true 6
     [[True, True, False, True, True, True], [False, True, False, False, False, False]]
   = Inr [3, 1]"
  using max_consecutive_true_longest_run
    [of "[[True, True, False, True, True, True], [False, True, False, False, False, False]]" 6]
  by (simp add: longest_run_def)

subsection \<open>Objects that exist\<close>

lemma valid_setup_scenarios:
  assumes "valid_setup s"
  shows "2 \<le> length (scenarios s)"
    and "\<And>sc. sc \<in> set (scenarios s) \<Longrightarrow> - 1 < return_pct sc"
    and "\<And>sc. sc \<in> set (scenarios s) \<Longrightarrow> 0 \<le> Scenario.probability sc \<and> Scenario.probability sc \<le> 1"
    and "0 < Setup.probability s" and "Setup.probability s \<le> 1"
proof -
  have a: "setup_post_init s = Inr ()" and b: "list_all valid_scenario (scenarios s)"
    using assms by (simp_all add: valid_setup_def)
  show "2 \<le> length (scenarios s)"
    using a by (auto simp: setup_post_init_def Let_def split: if_splits)
  show "0 < Setup.probability s" "Setup.probability s \<le> 1"
    using a by (auto simp: setup_post_init_def Let_def split: if_splits)
  fix sc assume "sc \<in> set (scenarios s)"
  then have v: "scenario_post_init sc = Inr ()"
    using b by (simp add: list_all_iff valid_scenario_def)
  show "- 1 < return_pct sc"
    using v by (auto simp: scenario_post_init_def split: if_splits)
  show "0 \<le> Scenario.probability sc \<and> Scenario.probability sc \<le> 1"
    using v by (auto simp: scenario_post_init_def split: if_splits)
qed

lemma np_min_Min:
  assumes "xs \<noteq> []"
  shows "np_min xs = Inr (Min (set xs))"
proof (cases xs)
  case Nil
  then show ?thesis using assms by simp
next
  case (Cons y ys)
  have "Min (set (y # ys)) = fold min ys y" by (rule Min.set_eq_fold)
  then show ?thesis unfolding Cons np_min_def by simp
qed

lemmas example_defs = mk_scenario_def mk_setup_def bad_bet_def two_outcome_def
  infeasible_setup_def valid_setup_def valid_scenario_def setup_post_init_def
  scenario_post_init_def strip_is_empty_def py_isspace_def np_isclose_def default_rtol_def


lemma valid_two_outcome: "0 < p \<Longrightarrow> p \<le> 1 \<Longrightarrow> valid_setup (two_outcome p)"
  by (simp add: example_defs)

lemma valid_infeasible_setup: "valid_setup infeasible_setup"
  by (simp add: example_defs)

lemma midpoint_within_bounds: "search_within_bounds midpoint_lib"
  by (simp add: search_within_bounds_def midpoint_lib_def)

subsection \<open>compute_kelly_fraction\<close>

lemma f_max_nonneg:
  assumes "- 1 < m"
  shows "0 \<le> f_max_of m"
proof (cases "m < 0")
  case True
  have "1 < - 1 / m"
  proof -
    have "0 < - m" "- m < 1" using True assms by simp_all
    then have "1 < 1 / (- m)" by (simp add: field_simps)
    then show ?thesis by simp
  qed
  moreover have "(1::real) / 10 ^ 9 < 1" by simp
  ultimately show ?thesis using True by (simp add: f_max_of_def)
next
  case False
  then show ?thesis by (simp add: f_max_of_def)
qed


text \<open>What compute_kelly_fraction returns for a Setup that exists.\<close>

lemma compute_kelly_fraction_shape:
  fixes lib :: pylib and s :: Setup
  assumes "valid_setup s"
  defines "probs \<equiv> map Scenario.probability (scenarios s)"
    and "returns \<equiv> map return_pct (scenarios s)"
  defines "E \<equiv> np_dot probs returns"
  defines "r \<equiv> bounded_search lib (neg_expected_log_growth probs returns) 0 (f_max_of (Min (set returns)))"
  shows "\<exists>info. compute_kelly_fraction lib s = Inr info
     \<and> setup_name info = Setup.name s
     \<and> expected_return info = E
     \<and> variance info = np_dot probs (map (\<lambda>x. (x - E) ^ 2) returns)
     \<and> edge info = E
     \<and> odds_description info = build_odds_description lib s
     \<and> optimal_fraction info = (if E \<le> 0 \<or> res_x r < 1 / 10 ^ 8 then 0 else res_x r)
     \<and> expected_log_growth info = (if E \<le> 0 \<or> res_x r < 1 / 10 ^ 8 then 0 else - res_fun r)"
proof (cases "E \<le> 0")
  case True
  then show ?thesis
    unfolding compute_kelly_fraction_def Let_def E_def probs_def returns_def by simp
next
  case False
  have ne: "returns \<noteq> []"
    using valid_setup_scenarios(1)[OF assms(1)] by (auto simp: returns_def)
  have mn: "np_min returns = Inr (Min (set returns))" using ne by (rule np_min_Min)
  have "Min (set returns) \<in> set returns" using ne by simp
  then have "- 1 < Min (set returns)"
    using valid_setup_scenarios(2)[OF assms(1)] by (auto simp: returns_def)
  then have "0 \<le> f_max_of (Min (set returns))" by (rule f_max_nonneg)
  then have ms: "minimize_scalar lib (neg_expected_log_growth probs returns) 0
        (f_max_of (Min (set returns))) = Inr r"
    by (simp add: minimize_scalar_def r_def)
  note ms' = ms[unfolded f_max_of_def]
  have "compute_kelly_fraction lib s =
      Inr \<lparr>setup_name = Setup.name s,
           optimal_fraction = (if res_x r < 1 / 10 ^ 8 then 0 else res_x r),
           expected_log_growth = (if res_x r < 1 / 10 ^ 8 then 0 else - res_fun r),
           expected_return = E,
           variance = np_dot probs (map (\<lambda>x. (x - E) ^ 2) returns),
           edge = E,
           odds_description = build_odds_description lib s\<rparr>"
    unfolding compute_kelly_fraction_def Let_def
    unfolding probs_def[symmetric] returns_def[symmetric]
    unfolding E_def[symmetric]
    using False by (simp only: mn ms' if_False sum.case)
  then show ?thesis using False by simp
qed





lemma solvent_at_optimum:
  assumes m: "- 1 < m" and mr: "m \<le> r" and x0: "0 \<le> x" and xm: "x \<le> f_max_of m"
  shows "0 < 1 + x * r"
proof (cases "r < 0")
  case False
  then have "0 \<le> x * r" using x0 by simp
  then show ?thesis by linarith
next
  case True
  then have m0: "m < 0" using mr by linarith
  then have fm: "f_max_of m = - 1 / m - 1 / 10 ^ 9" by (simp add: f_max_of_def)
  have "x * m \<le> x * r" using mr x0 by (rule mult_left_mono)
  moreover have "f_max_of m * m \<le> x * m" using xm m0 by (simp add: mult_right_mono_neg)
  moreover have "f_max_of m * m = - 1 - m / 10 ^ 9" using m0 by (simp add: fm field_simps)
  moreover have "0 < - m / 10 ^ 9" using m0 by simp
  ultimately show ?thesis by linarith
qed

text \<open>
  Claim C10. For every Setup that exists, and a bounded search that stays inside its bounds,
  the optimal fraction \<^verbatim>\<open>compute_kelly_fraction\<close> returns keeps every outcome solvent:
  \<open>1 + f r\<^sub>i > 0\<close> for every scenario return; equivalently
  \<^verbatim>\<open>expected_log_growth_at\<close> is finite at that fraction.
\<close>

theorem optimal_fraction_solvent:
  assumes "valid_setup s" and "search_within_bounds lib"
  shows "\<exists>info. compute_kelly_fraction lib s = Inr info
     \<and> (\<forall>sc \<in> set (scenarios s). 0 < 1 + optimal_fraction info * return_pct sc)
     \<and> expected_log_growth_at s (optimal_fraction info) \<noteq> NegInf"
proof -
  define probs where "probs = map Scenario.probability (scenarios s)"
  define returns where "returns = map return_pct (scenarios s)"
  define E where "E = np_dot probs returns"
  define m where "m = Min (set returns)"
  define r where "r = bounded_search lib (neg_expected_log_growth probs returns) 0 (f_max_of m)"
  obtain info where i: "compute_kelly_fraction lib s = Inr info"
    "optimal_fraction info = (if E \<le> 0 \<or> res_x r < 1 / 10 ^ 8 then 0 else res_x r)"
    using compute_kelly_fraction_shape[OF assms(1), of lib]
    unfolding probs_def returns_def E_def r_def m_def by blast
  have ne: "returns \<noteq> []"
    using valid_setup_scenarios(1)[OF assms(1)] by (auto simp: returns_def)
  have "m \<in> set returns" unfolding m_def using ne by simp
  then have m1: "- 1 < m"
    using valid_setup_scenarios(2)[OF assms(1)] by (auto simp: returns_def)
  then have "0 \<le> f_max_of m" by (rule f_max_nonneg)
  then have xb: "0 \<le> res_x r" "res_x r \<le> f_max_of m"
    using assms(2) unfolding search_within_bounds_def r_def by blast+
  have solv: "0 < 1 + optimal_fraction info * return_pct sc" if "sc \<in> set (scenarios s)" for sc
  proof (cases "E \<le> 0 \<or> res_x r < 1 / 10 ^ 8")
    case True
    then show ?thesis using i(2) by simp
  next
    case False
    have "return_pct sc \<in> set returns" using that by (simp add: returns_def)
    then have "m \<le> return_pct sc" unfolding m_def by simp
    from solvent_at_optimum[OF m1 this xb] show ?thesis using i(2) False by simp
  qed
  have "\<not> list_ex (\<lambda>t. t \<le> 0) (map (\<lambda>r. 1 + optimal_fraction info * r) (map return_pct (scenarios s)))"
  proof
    assume "list_ex (\<lambda>t. t \<le> 0)
      (map (\<lambda>r. 1 + optimal_fraction info * r) (map return_pct (scenarios s)))"
    then obtain sc where "sc \<in> set (scenarios s)"
      "1 + optimal_fraction info * return_pct sc \<le> 0"
      by (auto simp: list_ex_iff)
    then show False using solv[of sc] by linarith
  qed
  then have "expected_log_growth_at s (optimal_fraction info) \<noteq> NegInf"
    by (simp add: expected_log_growth_at_def Let_def)
  then show ?thesis using i(1) solv by blast
qed

theorem optimal_fraction_solvent_witness:
  "valid_setup (two_outcome 1) \<and> search_within_bounds midpoint_lib \<and>
   (\<exists>info. compute_kelly_fraction midpoint_lib (two_outcome 1) = Inr info
      \<and> 0 < 1 + optimal_fraction info * (- 1 / 10)
      \<and> expected_log_growth_at (two_outcome 1) (optimal_fraction info) \<noteq> NegInf)"
proof -
  have v: "valid_setup (two_outcome 1)" by (rule valid_two_outcome) simp_all
  have "mk_scenario ''Loss'' (4 / 10) (- 1 / 10) \<in> set (scenarios (two_outcome 1))"
    by (simp add: two_outcome_def mk_setup_def)
  moreover have "return_pct (mk_scenario ''Loss'' (4 / 10) (- 1 / 10)) = - 1 / 10"
    by (simp add: mk_scenario_def)
  ultimately show ?thesis
    using optimal_fraction_solvent[OF v midpoint_within_bounds] v midpoint_within_bounds
    by fastforce
qed

subsection \<open>expected_log_growth_at\<close>

text \<open>
  Claim C6. For every Setup and every fraction \<open>f\<close>, \<^verbatim>\<open>expected_log_growth_at\<close> raises
  nothing, returns negative infinity exactly when some term \<open>1 + f r\<^sub>i\<close> is at most 0 and
  \<open>\<Sum> p\<^sub>i ln (1 + f r\<^sub>i)\<close> otherwise; at \<open>f = 0\<close> it returns 0.
\<close>

theorem expected_log_growth_at_cases:
  "expected_log_growth_at s f =
     (if \<exists>sc \<in> set (scenarios s). 1 + f * return_pct sc \<le> 0 then NegInf
      else Finite (\<Sum>sc\<leftarrow>scenarios s. Scenario.probability sc * ln (1 + f * return_pct sc)))
   \<and> expected_log_growth_at s 0 = Finite 0"
proof
  have d: "np_dot (map p xs) (map ln (map (\<lambda>r. 1 + f * r) (map g xs))) =
        (\<Sum>x\<leftarrow>xs. p x * ln (1 + f * g x))" for p g and xs :: "Scenario list"
    by (induction xs) (simp_all add: np_dot_def)
  have l: "list_ex (\<lambda>t. t \<le> 0) (map (\<lambda>r. 1 + f * r) (map return_pct (scenarios s)))
        \<longleftrightarrow> (\<exists>sc \<in> set (scenarios s). 1 + f * return_pct sc \<le> 0)"
    by (auto simp: list_ex_iff)
  show "expected_log_growth_at s f =
     (if \<exists>sc \<in> set (scenarios s). 1 + f * return_pct sc \<le> 0 then NegInf
      else Finite (\<Sum>sc\<leftarrow>scenarios s. Scenario.probability sc * ln (1 + f * return_pct sc)))"
    unfolding expected_log_growth_at_def Let_def l d by simp
  have z: "np_dot (map p xs) (map ln (map (\<lambda>r. 1 + 0 * r) (map g xs))) = 0"
    for p g and xs :: "Scenario list"
    by (induction xs) (simp_all add: np_dot_def)
  show "expected_log_growth_at s 0 = Finite 0"
    unfolding expected_log_growth_at_def Let_def using z
    by (simp add: list_ex_iff)
qed

theorem expected_log_growth_at_cases_witness:
  "expected_log_growth_at infeasible_setup 3 = NegInf
   \<and> expected_log_growth_at infeasible_setup 0 = Finite 0"
  using expected_log_growth_at_cases[of infeasible_setup 3]
    expected_log_growth_at_cases[of infeasible_setup 0]
  by (simp add: infeasible_setup_def mk_setup_def mk_scenario_def)

subsection \<open>compute_blended_kelly\<close>

text \<open>
  The fraction 4 is the exact minimiser of the objective of the two-outcome bet on the
  whole feasible interval: a search that settles on 4 is an exact search for this Setup.
\<close>

lemma ln_diff_le:
  assumes "0 < a" and "0 < (c::real)"
  shows "ln a - ln c \<le> a / c - 1"
proof -
  have "0 < a / c" using assms by simp
  then have "ln (a / c) \<le> a / c - 1" by (rule ln_le_minus_one)
  moreover have "ln (a / c) = ln a - ln c" using assms by (simp add: ln_div)
  ultimately show ?thesis by linarith
qed

lemma two_outcome_maximiser:
  assumes "0 < 1 + f * (2 / 10)" and "0 < 1 + f * (- 1 / 10)"
  shows "neg_expected_log_growth [6 / 10, 4 / 10] [2 / 10, - 1 / 10] 4
       \<le> neg_expected_log_growth [6 / 10, 4 / 10] [2 / 10, - 1 / 10] f"
proof -
  define a where "a = 1 + f * (2 / 10)"
  define b where "b = 1 + f * (- 1 / 10)"
  define c :: real where "c = 1 + 4 * (2 / 10)"
  define d :: real where "d = 1 + 4 * (- 1 / 10)"
  have a: "0 < a" and b: "0 < b" using assms by (simp_all add: a_def b_def)
  have c: "0 < c" and d: "0 < d" by (simp_all add: c_def d_def)
  have la: "ln a - ln c \<le> a / c - 1" using a c by (rule ln_diff_le)
  have lb: "ln b - ln d \<le> b / d - 1" using b d by (rule ln_diff_le)
  have z: "(6 / 10) * (a / c - 1) + (4 / 10) * (b / d - 1) = 0"
    by (simp add: a_def b_def c_def d_def field_simps)
  have "(6 / 10) * (ln a - ln c) \<le> (6 / 10) * (a / c - 1)"
    using la by simp
  moreover have "(4 / 10) * (ln b - ln d) \<le> (4 / 10) * (b / d - 1)"
    using lb by simp
  ultimately have "(6 / 10) * (ln a - ln c) + (4 / 10) * (ln b - ln d) \<le> 0"
    using z by linarith
  then have le: "(6 / 10) * ln a + (4 / 10) * ln b \<le> (6 / 10) * ln c + (4 / 10) * ln d"
    unfolding right_diff_distrib by linarith
  have "neg_expected_log_growth [6 / 10, 4 / 10] [2 / 10, - 1 / 10] f
      = - ((6 / 10) * ln a + (4 / 10) * ln b)"
    unfolding neg_expected_log_growth_def np_dot_def a_def b_def by simp
  moreover have "neg_expected_log_growth [6 / 10, 4 / 10] [2 / 10, - 1 / 10] 4
      = - ((6 / 10) * ln c + (4 / 10) * ln d)"
    unfolding neg_expected_log_growth_def np_dot_def c_def d_def by simp
  ultimately show ?thesis using le by linarith
qed

text \<open>
  Claim C5 as stated fails: the two-outcome bet as a Setup of probability 1/2 exists, its
  optimal fraction (for the exact search) is 4, and the blend of the one-element tuple is
  \<open>0 + 1/2 * 4 = 2\<close>.
\<close>

theorem blended_single_counterexample:
  "valid_setup (two_outcome (1 / 2))
   \<and> (\<exists>info. compute_kelly_fraction (point_lib 4) (two_outcome (1 / 2)) = Inr info
        \<and> optimal_fraction info = 4)
   \<and> compute_blended_kelly (point_lib 4) [two_outcome (1 / 2)] = Inr 2"
proof -
  have v: "valid_setup (two_outcome (1 / 2))" by (rule valid_two_outcome) simp_all
  have k: "compute_kelly_fraction (point_lib 4) (two_outcome (1 / 2)) =
      Inr \<lparr>setup_name = ''TwoOutcome'', optimal_fraction = 4,
           expected_log_growth =
             - neg_expected_log_growth [6 / 10, 4 / 10] [2 / 10, - 1 / 10] 4,
           expected_return = 2 / 25,
           variance = np_dot [6 / 10, 4 / 10] [(2 / 10 - 2 / 25) ^ 2, (- 1 / 10 - 2 / 25) ^ 2],
           edge = 2 / 25,
           odds_description = build_odds_description (point_lib 4) (two_outcome (1 / 2))\<rparr>"
    by (simp add: compute_kelly_fraction_def two_outcome_def mk_setup_def mk_scenario_def
        np_dot_def np_min_def minimize_scalar_def point_lib_def Let_def)
  have "compute_blended_kelly (point_lib 4) [two_outcome (1 / 2)] = Inr 2"
    unfolding compute_blended_kelly_def by (simp add: k) (simp add: two_outcome_def mk_setup_def)
  then show ?thesis using v k by simp
qed

text \<open>
  Claim C5, amended. For every Setup that exists, \<^verbatim>\<open>compute_blended_kelly\<close> of the
  one-element tuple is the probability of the Setup times the optimal fraction of
  \<^verbatim>\<open>compute_kelly_fraction\<close>; it is that optimal fraction when the probability of the
  Setup is 1.
\<close>

theorem blended_single_weighted:
  assumes "valid_setup s"
  shows "\<exists>info. compute_kelly_fraction lib s = Inr info
     \<and> compute_blended_kelly lib [s] = Inr (Setup.probability s * optimal_fraction info)
     \<and> (Setup.probability s = 1 \<longrightarrow> compute_blended_kelly lib [s] = Inr (optimal_fraction info))"
proof -
  obtain info where i: "compute_kelly_fraction lib s = Inr info"
    using compute_kelly_fraction_shape[OF assms, of lib] by blast
  have "compute_blended_kelly lib [s] = Inr (Setup.probability s * optimal_fraction info)"
    by (simp add: compute_blended_kelly_def i)
  then show ?thesis using i by simp
qed

theorem blended_single_weighted_witness:
  "valid_setup (two_outcome 1) \<and>
   (\<exists>info. compute_kelly_fraction (point_lib 4) (two_outcome 1) = Inr info
      \<and> compute_blended_kelly (point_lib 4) [two_outcome 1] = Inr (optimal_fraction info))"
proof -
  have v: "valid_setup (two_outcome 1)" by (rule valid_two_outcome) simp_all
  have "Setup.probability (two_outcome 1) = 1" by (simp add: two_outcome_def mk_setup_def)
  then show ?thesis using blended_single_weighted[OF v, of "point_lib 4"] v by auto
qed

text \<open>
  Whatever the search returns: the blend of a single Setup differs from its optimal fraction
  as soon as that fraction is not 0 and the probability of the Setup is not 1.
\<close>

lemma blended_single_differs:
  assumes "compute_kelly_fraction lib s = Inr info"
    and "optimal_fraction info \<noteq> 0" and "Setup.probability s \<noteq> 1"
  shows "compute_blended_kelly lib [s] \<noteq> Inr (optimal_fraction info)"
  using assms by (simp add: compute_blended_kelly_def)

subsection \<open>The tolerance of the probability sums\<close>









subsection \<open>The sampler\<close>

lemma length_rng_random: "length (fst (rng_random bg n g)) = n"
proof (induction n arbitrary: g)
  case 0
  show ?case by simp
next
  case (Suc n)
  obtain v g1 where nx: "next_double bg g = (v, g1)" by (cases "next_double bg g")
  obtain us g2 where rr: "rng_random bg n g1 = (us, g2)" by (cases "rng_random bg n g1")
  have "length us = n" using Suc.IH[of g1] by (simp add: rr)
  then show ?case by (simp add: nx rr)
qed

lemma rng_random_uniform:
  "uniform01 bg \<Longrightarrow> u \<in> set (fst (rng_random bg n g)) \<Longrightarrow> 0 \<le> u \<and> u < 1"
proof (induction n arbitrary: g)
  case 0
  then show ?case by simp
next
  case (Suc n)
  obtain v g1 where nx: "next_double bg g = (v, g1)" by (cases "next_double bg g")
  obtain us g2 where rr: "rng_random bg n g1 = (us, g2)" by (cases "rng_random bg n g1")
  have "u = v \<or> u \<in> set us" using Suc.prems(2) by (simp add: nx rr)
  then show ?case
  proof
    assume "u = v"
    moreover have "0 \<le> fst (next_double bg g) \<and> fst (next_double bg g) < 1"
      using Suc.prems(1) unfolding uniform01_def by blast
    ultimately show ?thesis by (simp add: nx)
  next
    assume "u \<in> set us"
    then have "u \<in> set (fst (rng_random bg n g1))" by (simp add: rr)
    then show ?thesis using Suc.IH[OF Suc.prems(1)] by blast
  qed
qed

lemma length_cumsum_from: "length (cumsum_from acc xs) = length xs"
  by (induction xs arbitrary: acc) auto

lemma searchsorted_less:
  assumes "a \<noteq> []" and "u \<le> last a"
  shows "searchsorted a u < length a"
proof -
  have "last a \<in> set a" using assms(1) by simp
  moreover have "\<not> last a < u" using assms(2) by simp
  ultimately have "takeWhile (\<lambda>x. x < u) a \<noteq> a"
    by (metis takeWhile_eq_all_conv)
  moreover have "length (takeWhile (\<lambda>x. x < u) a) \<le> length a" by (rule length_takeWhile_le)
  ultimately show ?thesis unfolding searchsorted_def
    by (metis le_neq_implies_less takeWhile_eq_take take_all_iff order_refl)
qed

lemma sample_categorical_ok:
  assumes "uniform01 bg" and "probs \<noteq> []" and "\<forall>d \<in> set dims. 0 \<le> d"
  shows "\<exists>idx g'. sample_categorical bg g probs dims = Inr (idx, g')
     \<and> length idx = nat (prod_list dims) \<and> (\<forall>i \<in> set idx. i < length probs)"
proof -
  define cp where "cp = butlast (np_cumsum probs) @ [1]"
  have ne: "np_cumsum probs \<noteq> []"
    using assms(2) length_cumsum_from[of 0 probs] unfolding np_cumsum_def by (cases probs) auto
  have sl: "set_last (np_cumsum probs) 1 = Inr cp" using ne by (simp add: set_last_def cp_def)
  have "0 < length (np_cumsum probs)" using ne by simp
  then have lcp: "length cp = length probs"
    using length_cumsum_from[of 0 probs] by (simp add: cp_def np_cumsum_def)
  have last: "last cp = 1" "cp \<noteq> []" by (simp_all add: cp_def)
  have nd: "\<not> list_ex (\<lambda>d. d < 0) dims" using assms(3) by (auto simp: list_ex_iff)
  obtain us g' where rr: "rng_random bg (nat (prod_list dims)) g = (us, g')"
    by (cases "rng_random bg (nat (prod_list dims)) g")
  have lus: "length us = nat (prod_list dims)" using length_rng_random[of bg "nat (prod_list dims)" g] rr by simp
  have "searchsorted cp u < length probs" if "u \<in> set us" for u
  proof -
    have "u \<in> set (fst (rng_random bg (nat (prod_list dims)) g))" using that rr by simp
    then have "u < 1" using rng_random_uniform[OF assms(1)] by blast
    then have "u \<le> last cp" using last(1) by simp
    from searchsorted_less[OF last(2) this] show ?thesis using lcp by simp
  qed
  then have "\<forall>i \<in> set (map (searchsorted cp) us). i < length probs" by auto
  moreover have "sample_categorical bg g probs dims = Inr (map (searchsorted cp) us, g')"
    unfolding sample_categorical_def by (simp add: sl nd rr)
  ultimately show ?thesis using lus by simp
qed

lemma sample_categorical_Inr:
  assumes u: "uniform01 bg" and s: "sample_categorical bg g probs dims = Inr (idx, g')"
  shows "length idx = nat (prod_list dims) \<and> (\<forall>i \<in> set idx. i < length probs)
     \<and> (\<forall>d \<in> set dims. 0 \<le> d)"
proof -
  have ne: "probs \<noteq> []"
  proof
    assume "probs = []"
    then have "sample_categorical bg g probs dims = Inl IndexError"
      by (simp add: sample_categorical_def set_last_def np_cumsum_def)
    then show False using s by simp
  qed
  have nd: "\<forall>d \<in> set dims. 0 \<le> d"
  proof (rule ccontr)
    assume "\<not> (\<forall>d \<in> set dims. 0 \<le> d)"
    then obtain d where "d \<in> set dims" "d < 0" by (auto simp: not_le)
    then have "list_ex (\<lambda>d. d < 0) dims" unfolding list_ex_iff by blast
    then have "\<exists>e. sample_categorical bg g probs dims = Inl e"
      unfolding sample_categorical_def by (cases "set_last (np_cumsum probs) 1") simp_all
    then show False using s by auto
  qed
  from sample_categorical_ok[OF u ne nd, of g] show ?thesis using s nd by auto
qed

lemma uniform01_lcg: "uniform01 lcg_gen"
  by (simp add: uniform01_def lcg_gen_def)

lemma uniform01_const: "0 \<le> u \<Longrightarrow> u < 1 \<Longrightarrow> uniform01 (const_gen u)"
  by (simp add: uniform01_def const_gen_def)

text \<open>
  A category of probability 0 that is neither the first nor the last is never drawn: its
  cumulative value equals the one before it.
\<close>

lemma cumsum_from_nth:
  "Suc k < length xs \<Longrightarrow> cumsum_from acc xs ! Suc k = cumsum_from acc xs ! k + xs ! Suc k"
proof (induction xs arbitrary: acc k)
  case Nil
  then show ?case by simp
next
  case (Cons x xs)
  show ?case
  proof (cases k)
    case 0
    then show ?thesis using Cons.prems by (cases xs) simp_all
  next
    case (Suc k')
    then have "Suc k' < length xs" using Cons.prems by simp
    from Cons.IH[OF this, of "acc + x"] show ?thesis using Suc by simp
  qed
qed

lemma searchsorted_bounds:
  assumes "searchsorted a u = k"
  shows "(0 < k \<longrightarrow> a ! (k - 1) < u) \<and> (k < length a \<longrightarrow> u \<le> a ! k)"
proof (intro conjI impI)
  assume "0 < k"
  then have lt: "k - 1 < length (takeWhile (\<lambda>x. x < u) a)"
    using assms by (simp add: searchsorted_def)
  then have "takeWhile (\<lambda>x. x < u) a ! (k - 1) \<in> set (takeWhile (\<lambda>x. x < u) a)"
    by (rule nth_mem)
  moreover have "takeWhile (\<lambda>x. x < u) a ! (k - 1) = a ! (k - 1)"
    using lt by (rule takeWhile_nth)
  ultimately have "a ! (k - 1) \<in> set (takeWhile (\<lambda>x. x < u) a)" by simp
  then show "a ! (k - 1) < u" by (rule set_takeWhileD[THEN conjunct2])
next
  assume "k < length a"
  then have "length (takeWhile (\<lambda>x. x < u) a) < length a"
    using assms by (simp add: searchsorted_def)
  then have "\<not> a ! length (takeWhile (\<lambda>x. x < u) a) < u" by (rule nth_length_takeWhile)
  then show "u \<le> a ! k" using assms by (simp add: searchsorted_def)
qed

lemma interior_zero_probability_never_drawn:
  assumes k: "0 < k" "Suc k < length probs" and z: "probs ! k = 0"
  shows "searchsorted (butlast (np_cumsum probs) @ [1]) u \<noteq> k"
proof
  let ?cs = "np_cumsum probs"
  let ?cp = "butlast ?cs @ [1]"
  assume s: "searchsorted ?cp u = k"
  have lcs: "length ?cs = length probs" by (simp add: np_cumsum_def length_cumsum_from)
  obtain j where j: "k = Suc j" using k(1) by (cases k) simp_all
  have kb: "k < length (butlast ?cs)" "j < length (butlast ?cs)" using k(2) lcs j by simp_all
  have nk: "?cp ! k = ?cs ! k" using kb(1) by (simp add: nth_append nth_butlast)
  have nj: "?cp ! j = ?cs ! j" using kb(2) by (simp add: nth_append nth_butlast)
  have "?cs ! Suc j = ?cs ! j + probs ! Suc j"
    unfolding np_cumsum_def using k(2) j by (intro cumsum_from_nth) simp
  then have eq: "?cp ! k = ?cp ! j" using z j nk nj by simp
  have "?cp ! (k - 1) < u" "u \<le> ?cp ! k"
    using searchsorted_bounds[OF s] k kb(1) by simp_all
  then show False using eq j by simp
qed

text \<open>
  Claim C8 at a failing input: the probability vector [0, 1] and the draw \<open>u = 0\<close>, which
  lies in [0, 1). The cumulative values are [0, 1], the search from the left stops at the
  first value that is at least \<open>u\<close>, and the sampler returns index 0, the category of
  probability 0.
\<close>

theorem zero_probability_category_drawn:
  "uniform01 (const_gen 0)
   \<and> sample_categorical (const_gen 0) () [0, 1] [1] = Inr ([0], ())
   \<and> [0, 1 :: real] ! 0 = 0"
proof -
  have "uniform01 (const_gen 0)" by (rule uniform01_const) simp_all
  moreover have "sample_categorical (const_gen 0) () [0, 1] [1] = Inr ([0], ())"
    by (simp add: sample_categorical_def set_last_def np_cumsum_def searchsorted_def
        const_gen_def)
  ultimately show ?thesis by simp
qed

text \<open>
  The last category too: the constructor accepts scenario probabilities 0.999999 and 0, the
  last cumulative value is forced to 1, and a draw between 0.999999 and 1 returns the last
  index, whose probability is 0.
\<close>

lemma last_zero_probability_drawn:
  "uniform01 (const_gen (9999995 / 10000000))
   \<and> sample_categorical (const_gen (9999995 / 10000000)) () [999999 / 1000000, 0] [1]
       = Inr ([1], ())
   \<and> new_Setup ''S'' 1 [mk_scenario ''A'' (999999 / 1000000) (1 / 10),
                           mk_scenario ''Never'' 0 (- 1 / 2)] None
       = Inr (mk_setup ''S'' 1 [mk_scenario ''A'' (999999 / 1000000) (1 / 10),
                                 mk_scenario ''Never'' 0 (- 1 / 2)] None)"
proof -
  have "uniform01 (const_gen (9999995 / 10000000))" by (rule uniform01_const) simp_all
  moreover have "sample_categorical (const_gen (9999995 / 10000000)) ()
      [999999 / 1000000, 0] [1] = Inr ([1], ())"
    by (simp add: sample_categorical_def set_last_def np_cumsum_def searchsorted_def
        const_gen_def)
  moreover have "new_Setup ''S'' 1 [mk_scenario ''A'' (999999 / 1000000) (1 / 10),
                           mk_scenario ''Never'' 0 (- 1 / 2)] None
       = Inr (mk_setup ''S'' 1 [mk_scenario ''A'' (999999 / 1000000) (1 / 10),
                                 mk_scenario ''Never'' 0 (- 1 / 2)] None)"
    by (simp add: new_Setup_def example_defs Let_def)
  ultimately show ?thesis by blast
qed

subsection \<open>Masked assignment\<close>

lemma length_scatter: "length (scatter ms vs xs) = length xs"
  by (induction ms vs xs rule: scatter.induct) auto

lemma count_true_Cons: "count_true (m # ms) = (if m then Suc (count_true ms) else count_true ms)"
  by (simp add: count_true_def)

lemma count_true_Nil: "count_true [] = 0"
  by (simp add: count_true_def)

lemma rank_0: "rank ms 0 = 0" by (simp add: rank_def count_true_def)

lemma rank_Suc: "rank (m # ms) (Suc p) = (if m then Suc (rank ms p) else rank ms p)"
  by (simp add: rank_def count_true_Cons)

lemma rank_less:
  "p < length ms \<Longrightarrow> ms ! p \<Longrightarrow> rank ms p < count_true ms"
proof (induction ms arbitrary: p)
  case Nil
  then show ?case by simp
next
  case (Cons m ms)
  show ?case
  proof (cases p)
    case 0
    then show ?thesis using Cons.prems by (simp add: rank_0 count_true_Cons)
  next
    case (Suc q)
    then have "rank ms q < count_true ms" using Cons.IH[of q] Cons.prems by simp
    then show ?thesis using Suc by (simp add: rank_Suc count_true_Cons)
  qed
qed

lemma scatter_nth:
  "length ms = length xs \<Longrightarrow> count_true ms \<le> length vs \<Longrightarrow> p < length xs \<Longrightarrow>
   scatter ms vs xs ! p = (if ms ! p then vs ! rank ms p else xs ! p)"
proof (induction ms arbitrary: vs xs p)
  case Nil
  then show ?case by simp
next
  case (Cons m ms)
  obtain x xs' where xs: "xs = x # xs'" using Cons.prems(1) by (cases xs) auto
  show ?case
  proof (cases m)
    case True
    then obtain v vs' where vs: "vs = v # vs'"
      using Cons.prems(2) by (cases vs) (auto simp: count_true_Cons)
    show ?thesis
    proof (cases p)
      case 0
      then show ?thesis using True by (simp add: xs vs rank_0)
    next
      case (Suc q)
      have "scatter ms vs' xs' ! q = (if ms ! q then vs' ! rank ms q else xs' ! q)"
        using Cons.prems True Suc by (intro Cons.IH) (simp_all add: xs vs count_true_Cons)
      then show ?thesis using True Suc by (simp add: xs vs rank_Suc)
    qed
  next
    case False
    show ?thesis
    proof (cases p)
      case 0
      then show ?thesis using False by (simp add: xs)
    next
      case (Suc q)
      have "scatter ms vs xs' ! q = (if ms ! q then vs ! rank ms q else xs' ! q)"
        using Cons.prems False Suc by (intro Cons.IH) (simp_all add: xs count_true_Cons)
      then show ?thesis using False Suc by (simp add: xs rank_Suc)
    qed
  qed
qed

lemma count_true_0: "count_true ms = 0 \<Longrightarrow> p < length ms \<Longrightarrow> \<not> ms ! p"
  unfolding count_true_def by (metis filter_empty_conv length_0_conv nth_mem)

lemma mask_assign_ok:
  assumes "length ms = length xs" and "length vs = count_true ms"
  shows "mask_assign ms vs xs = Inr (scatter ms vs xs)"
  using assms by (simp add: mask_assign_def Let_def)

lemma take_indices_ok:
  assumes "\<forall>i \<in> set idx. i < length xs"
  shows "take_indices xs idx = Inr (map (\<lambda>i. xs ! i) idx)"
  using assms by (simp add: take_indices_def list_all_iff)

text \<open>
  What \<open>mask_assign\<close> does depends on the old contents of the array only through
  \<open>scatter\<close>.
\<close>

lemma mask_assign_cases:
  "(\<exists>e. \<forall>xs. length xs = n \<longrightarrow> mask_assign ms vs xs = Inl e)
   \<or> (length ms = n \<and>
      (\<exists>ws. length ws = count_true ms \<and>
         (\<forall>xs. length xs = n \<longrightarrow> mask_assign ms vs xs = Inr (scatter ms ws xs))))"
proof (cases "length ms = n")
  case False
  then have "\<forall>xs. length xs = n \<longrightarrow> mask_assign ms vs xs = Inl IndexError"
    by (simp add: mask_assign_def Let_def)
  then show ?thesis by blast
next
  case True
  note len = this
  show ?thesis
  proof (cases "length vs = count_true ms")
    case True
    then have "\<forall>xs. length xs = n \<longrightarrow> mask_assign ms vs xs = Inr (scatter ms vs xs)"
      using len by (simp add: mask_assign_def Let_def)
    then show ?thesis using len True by blast
  next
    case False
    note nv = this
    show ?thesis
    proof (cases "length vs = 1")
      case True
      have "\<forall>xs. length xs = n \<longrightarrow>
          mask_assign ms vs xs = Inr (scatter ms (replicate (count_true ms) (hd vs)) xs)"
        using len nv True by (simp add: mask_assign_def Let_def)
      moreover have "length (replicate (count_true ms) (hd vs)) = count_true ms" by simp
      ultimately show ?thesis using len by blast
    next
      case False
      have "\<forall>xs. length xs = n \<longrightarrow> mask_assign ms vs xs =
          Inl (ValueError ''cannot assign input values to the output values where the mask is true'')"
        using len nv False by (simp add: mask_assign_def Let_def)
      then show ?thesis by blast
    qed
  qed
qed

subsection \<open>The loop over the setups\<close>

lemma scenario_loop_skip:
  assumes "count_true (map (\<lambda>x. x = k) idx) = 0"
  shows "scenario_loop bg idx k (s # rest) (g, sc, ret) = scenario_loop bg idx (Suc k) rest (g, sc, ret)"
  using assms by (simp add: Let_def)

lemma scenario_loop_draw:
  assumes "count_true (map (\<lambda>x. x = k) idx) \<noteq> 0"
    and "sample_categorical bg g (map Scenario.probability (scenarios s))
           [int (count_true (map (\<lambda>x. x = k) idx))] = Inr (sc_idx, g')"
    and "mask_assign (map (\<lambda>x. x = k) idx) sc_idx sc = Inr sc'"
    and "take_indices (map return_pct (scenarios s)) sc_idx = Inr vals"
    and "mask_assign (map (\<lambda>x. x = k) idx) vals ret = Inr ret'"
  shows "scenario_loop bg idx k (s # rest) (g, sc, ret) = scenario_loop bg idx (Suc k) rest (g', sc', ret')"
  using assms by (simp add: Let_def)

lemma scenario_loop_inv:
  assumes u: "uniform01 bg"
  shows "sts = pre @ rest \<Longrightarrow> k = length pre \<Longrightarrow> \<forall>s \<in> set rest. scenarios s \<noteq> [] \<Longrightarrow>
     loop_inv sts idx k sc ret \<Longrightarrow>
     \<exists>g' sc' ret'. scenario_loop bg idx k rest (g, sc, ret) = Inr (g', sc', ret')
        \<and> loop_inv sts idx (length sts) sc' ret'"
proof (induction rest arbitrary: pre k g sc ret)
  case Nil
  then show ?case by simp
next
  case (Cons s rest)
  let ?mask = "map (\<lambda>x. x = k) idx"
  let ?n = "count_true ?mask"
  have sts': "sts = (pre @ [s]) @ rest" using Cons.prems(1) by simp
  have k': "Suc k = length (pre @ [s])" using Cons.prems(2) by simp
  have ne': "\<forall>s \<in> set rest. scenarios s \<noteq> []" using Cons.prems(3) by simp
  have sk: "sts ! k = s" using Cons.prems(1,2) by simp
  have klt: "k < length sts" using Cons.prems(1,2) by simp
  have len: "length sc = length idx" "length ret = length idx"
    and ok: "\<And>p. p < length idx \<Longrightarrow> idx ! p < k \<Longrightarrow> cell_ok sts (idx ! p) (sc ! p) (ret ! p)"
    using Cons.prems(4) unfolding loop_inv_def by blast+
  show ?case
  proof (cases "?n = 0")
    case True
    have "loop_inv sts idx (Suc k) sc ret"
      unfolding loop_inv_def
    proof (intro conjI allI impI)
      fix p assume p: "p < length idx" and "idx ! p < Suc k"
      moreover have "\<not> ?mask ! p" using True p by (intro count_true_0) simp_all
      ultimately have "idx ! p < k" using p by simp
      then show "cell_ok sts (idx ! p) (sc ! p) (ret ! p)" using ok p by blast
    qed (simp_all add: len)
    from Cons.IH[OF sts' k' ne' this, of g]
    show ?thesis unfolding scenario_loop_skip[OF True] .
  next
    case False
    have pne: "map Scenario.probability (scenarios s) \<noteq> []" using Cons.prems(3) by simp
    have "\<forall>d \<in> set [int ?n]. 0 \<le> d" by simp
    from sample_categorical_ok[OF u pne this, of g]
    obtain sc_idx g' where smp: "sample_categorical bg g (map Scenario.probability (scenarios s)) [int ?n]
        = Inr (sc_idx, g')"
      and lsc: "length sc_idx = ?n"
      and bnd: "\<forall>i \<in> set sc_idx. i < length (scenarios s)"
      by auto
    define vals where "vals = map (\<lambda>i. map return_pct (scenarios s) ! i) sc_idx"
    have ma1: "mask_assign ?mask sc_idx sc = Inr (scatter ?mask sc_idx sc)"
      using len lsc by (intro mask_assign_ok) simp_all
    have ti: "take_indices (map return_pct (scenarios s)) sc_idx = Inr vals"
      unfolding vals_def using bnd by (intro take_indices_ok) simp
    have ma2: "mask_assign ?mask vals ret = Inr (scatter ?mask vals ret)"
      using len lsc by (intro mask_assign_ok) (simp_all add: vals_def)
    have inv: "loop_inv sts idx (Suc k) (scatter ?mask sc_idx sc) (scatter ?mask vals ret)"
      unfolding loop_inv_def
    proof (intro conjI allI impI)
      fix p assume p: "p < length idx" and lt: "idx ! p < Suc k"
      have n1: "scatter ?mask sc_idx sc ! p = (if ?mask ! p then sc_idx ! rank ?mask p else sc ! p)"
        using len lsc p by (intro scatter_nth) simp_all
      have n2: "scatter ?mask vals ret ! p = (if ?mask ! p then vals ! rank ?mask p else ret ! p)"
        using len lsc p by (intro scatter_nth) (simp_all add: vals_def)
      show "cell_ok sts (idx ! p) (scatter ?mask sc_idx sc ! p) (scatter ?mask vals ret ! p)"
      proof (cases "idx ! p = k")
        case True
        then have m: "?mask ! p" using p by simp
        have r: "rank ?mask p < length sc_idx" using rank_less[of p ?mask] m p lsc by simp
        then have b: "sc_idx ! rank ?mask p < length (scenarios s)" using bnd by simp
        have "vals ! rank ?mask p = return_pct (scenarios s ! (sc_idx ! rank ?mask p))"
          using r b by (simp add: vals_def)
        then show ?thesis using m n1 n2 b True sk klt by (simp add: cell_ok_def)
      next
        case False
        then have "\<not> ?mask ! p" using p by simp
        moreover have "idx ! p < k" using False lt by simp
        ultimately show ?thesis using n1 n2 ok[OF p] by simp
      qed
    qed (simp_all add: len length_scatter)
    from Cons.IH[OF sts' k' ne' inv, of g']
    show ?thesis unfolding scenario_loop_draw[OF False smp ma1 ti ma2] .
  qed
qed

subsection \<open>Rows of a C-order array\<close>

lemma length_reshape: "length (reshape r c xs) = r"
  by (induction r arbitrary: xs) auto

lemma reshape_nth:
  "i < r \<Longrightarrow> j < c \<Longrightarrow> length xs = r * c \<Longrightarrow> reshape r c xs ! i ! j = xs ! (i * c + j)"
proof (induction r arbitrary: xs i)
  case 0
  then show ?case by simp
next
  case (Suc r)
  show ?case
  proof (cases i)
    case 0
    then show ?thesis using Suc.prems by simp
  next
    case (Suc i')
    have l: "length (drop c xs) = r * c" using Suc.prems(3) by simp
    have "i' < r" using Suc.prems(1) Suc by simp
    from Suc.IH[OF this Suc.prems(2) l]
    have "reshape r c (drop c xs) ! i' ! j = drop c xs ! (i' * c + j)" .
    also have "\<dots> = xs ! (c + (i' * c + j))" using Suc.prems(3) by (intro nth_drop) simp
    finally show ?thesis using Suc by (simp add: add.assoc)
  qed
qed

lemma reshape_row_length:
  "length xs = r * c \<Longrightarrow> row \<in> set (reshape r c xs) \<Longrightarrow> length row = c"
proof (induction r arbitrary: xs)
  case 0
  then show ?case by simp
next
  case (Suc r)
  have l: "length (drop c xs) = r * c" using Suc.prems(1) by simp
  have "row = take c xs \<or> row \<in> set (reshape r c (drop c xs))" using Suc.prems(2) by simp
  then show ?case
  proof
    assume "row = take c xs"
    then show ?thesis using Suc.prems(1) by simp
  next
    assume "row \<in> set (reshape r c (drop c xs))"
    then show ?thesis using Suc.IH[OF l] by blast
  qed
qed


lemma cell_index: "i < r \<Longrightarrow> j < c \<Longrightarrow> i * c + j < r * (c::nat)"
proof -
  assume i: "i < r" and j: "j < c"
  have "i * c + j < i * c + c" using j by simp
  also have "\<dots> = Suc i * c" by simp
  also have "\<dots> \<le> r * c" using i by (intro mult_le_mono1) simp
  finally show ?thesis .
qed

lemma has_shape_reshape: "length xs = r * c \<Longrightarrow> has_shape (reshape r c xs) r c"
  unfolding has_shape_def using length_reshape reshape_row_length by blast


lemma length_cumprod_from: "length (cumprod_from acc xs) = length xs"
  by (induction xs arbitrary: acc) auto

subsection \<open>What a run returns\<close>

lemma valid_config_facts:
  assumes "valid_config cfg"
  shows "setups cfg \<noteq> []" and "1 \<le> num_simulations cfg" and "1 \<le> num_periods cfg"
    and "0 < initial_capital cfg" and "0 < default_kelly_fraction cfg"
    and "\<And>s. s \<in> set (setups cfg) \<Longrightarrow> valid_setup s"
proof -
  have a: "config_post_init cfg = Inr ()" and b: "list_all valid_setup (setups cfg)"
    using assms by (simp_all add: valid_config_def)
  show "setups cfg \<noteq> []" "1 \<le> num_simulations cfg" "1 \<le> num_periods cfg"
    "0 < initial_capital cfg" "0 < default_kelly_fraction cfg"
    using a by (auto simp: config_post_init_def Let_def split: if_splits)
  show "\<And>s. s \<in> set (setups cfg) \<Longrightarrow> valid_setup s" using b by (simp add: list_all_iff)
qed

lemma assemble_result_simps:
  "portfolio_values (assemble_result cfg idx sc ret) =
     map (\<lambda>row. initial_capital cfg # map (\<lambda>c. initial_capital cfg * c) row)
       (map np_cumprod (growth_rows cfg idx ret))"
  "period_returns (assemble_result cfg idx sc ret) =
     reshape (nat (num_simulations cfg)) (nat (num_periods cfg)) ret"
  "setup_indices (assemble_result cfg idx sc ret) =
     reshape (nat (num_simulations cfg)) (nat (num_periods cfg)) idx"
  "scenario_indices (assemble_result cfg idx sc ret) =
     reshape (nat (num_simulations cfg)) (nat (num_periods cfg)) sc"
  "config (assemble_result cfg idx sc ret) = cfg"
  by (simp_all add: assemble_result_def)

text \<open>What a run returns, in terms of the C-order arrays of the loop.\<close>

lemma run_simulation_shape:
  assumes v: "valid_config cfg" and u: "uniform01 bg"
    and rng: "default_rng bg (os_entropy env) (seed cfg) = Inr g"
  shows "\<exists>idx sc ret.
      run_simulation bg env cfg = Inr (assemble_result cfg idx sc ret)
      \<and> length idx = nat (num_simulations cfg) * nat (num_periods cfg)
      \<and> length sc = length idx \<and> length ret = length idx
      \<and> (\<forall>p < length idx. cell_ok (setups cfg) (idx ! p) (sc ! p) (ret ! p))"
proof -
  let ?N = "nat (num_simulations cfg)" and ?T = "nat (num_periods cfg)"
  let ?sts = "setups cfg"
  note f = valid_config_facts[OF v]
  have pne: "map Setup.probability ?sts \<noteq> []" using f(1) by simp
  have dims: "\<forall>d \<in> set [num_simulations cfg, num_periods cfg]. 0 \<le> d" using f(2,3) by simp
  from sample_categorical_ok[OF u pne dims, of g]
  obtain idx g1 where smp: "sample_categorical bg g (map Setup.probability ?sts)
        [num_simulations cfg, num_periods cfg] = Inr (idx, g1)"
    and lidx0: "length idx = nat (prod_list [num_simulations cfg, num_periods cfg])"
    and bnd: "\<forall>i \<in> set idx. i < length ?sts"
    by auto
  have lidx: "length idx = ?N * ?T" using lidx0 f(2) by (simp add: nat_mult_distrib)
  have ne: "\<forall>s \<in> set ?sts. scenarios s \<noteq> []"
  proof
    fix s assume "s \<in> set ?sts"
    then have "2 \<le> length (scenarios s)" using f(6) valid_setup_scenarios(1) by blast
    then show "scenarios s \<noteq> []" by auto
  qed
  have inv0: "loop_inv ?sts idx 0 (np_empty (uninit_int env) (?N * ?T))
      (np_empty (uninit_float env) (?N * ?T))"
    by (simp add: loop_inv_def np_empty_def lidx)
  have "?sts = [] @ ?sts" "0 = length ([] :: Setup list)" by simp_all
  from scenario_loop_inv[OF u this ne inv0, of g1]
  obtain g2 sc ret where lp: "scenario_loop bg idx 0 ?sts
        (g1, np_empty (uninit_int env) (?N * ?T), np_empty (uninit_float env) (?N * ?T))
        = Inr (g2, sc, ret)"
    and inv: "loop_inv ?sts idx (length ?sts) sc ret"
    by blast
  have lens: "length sc = length idx" "length ret = length idx"
    using inv by (simp_all add: loop_inv_def)
  have cells: "\<forall>p < length idx. cell_ok ?sts (idx ! p) (sc ! p) (ret ! p)"
    using inv bnd by (simp add: loop_inv_def)
  have ti: "take_indices (map (get_effective_kelly cfg) ?sts) idx
      = Inr (map (\<lambda>i. map (get_effective_kelly cfg) ?sts ! i) idx)"
    using bnd by (intro take_indices_ok) simp
  have "run_simulation bg env cfg = Inr (assemble_result cfg idx sc ret)"
    unfolding run_simulation_def assemble_result_def growth_rows_def Let_def
    by (simp only: rng smp lp ti sum.case prod.case)
  then show ?thesis using lidx lens cells by blast
qed

lemma assemble_result_shape:
  assumes l: "length idx = nat (num_simulations cfg) * nat (num_periods cfg)"
    "length sc = length idx" "length ret = length idx"
  shows "has_shape (period_returns (assemble_result cfg idx sc ret))
           (nat (num_simulations cfg)) (nat (num_periods cfg))"
    and "has_shape (setup_indices (assemble_result cfg idx sc ret))
           (nat (num_simulations cfg)) (nat (num_periods cfg))"
    and "has_shape (scenario_indices (assemble_result cfg idx sc ret))
           (nat (num_simulations cfg)) (nat (num_periods cfg))"
    and "has_shape (portfolio_values (assemble_result cfg idx sc ret))
           (nat (num_simulations cfg)) (Suc (nat (num_periods cfg)))"
proof -
  let ?N = "nat (num_simulations cfg)" and ?T = "nat (num_periods cfg)"
  show "has_shape (period_returns (assemble_result cfg idx sc ret)) ?N ?T"
    "has_shape (setup_indices (assemble_result cfg idx sc ret)) ?N ?T"
    "has_shape (scenario_indices (assemble_result cfg idx sc ret)) ?N ?T"
    unfolding assemble_result_simps using l by (simp_all add: has_shape_reshape)
  have "has_shape (growth_rows cfg idx ret) ?N ?T"
    unfolding growth_rows_def using l by (intro has_shape_reshape) simp
  then show "has_shape (portfolio_values (assemble_result cfg idx sc ret)) ?N (Suc ?T)"
    unfolding assemble_result_simps has_shape_def
    by (auto simp: np_cumprod_def length_cumprod_from)
qed

lemma run_simulation_Inr_rng:
  assumes "run_simulation bg env cfg = Inr res"
  shows "\<exists>g. default_rng bg (os_entropy env) (seed cfg) = Inr g"
proof (cases "default_rng bg (os_entropy env) (seed cfg)")
  case (Inl e)
  have "run_simulation bg env cfg = Inl e"
    unfolding run_simulation_def by (simp only: Inl sum.case)
  then show ?thesis using assms by simp
next
  case (Inr g)
  then show ?thesis by blast
qed

lemma default_rng_ok:
  assumes "case seed cfg of None \<Rightarrow> True | Some n \<Rightarrow> 0 \<le> n"
  shows "\<exists>g. default_rng bg e (seed cfg) = Inr g"
  using assms by (cases "seed cfg") (simp_all add: default_rng_def)

lemmas config_defs = mk_config_def valid_config_def config_post_init_def Let_def

lemma valid_demo_config: "valid_config demo_config"
  by (simp add: demo_config_def config_defs example_defs)



text \<open>
  Claim C2. For every SimulationConfig that exists and every generator whose doubles lie
  in [0, 1): a run returns a result unless the seed is negative (which numpy refuses), the
  three matrices have the shape simulations by periods, and in every cell \<open>(i, j)\<close> the
  setup index is a valid index of the setups, the scenario index is a valid index of the
  scenarios of that setup, and the raw return is the return of that scenario.
\<close>

theorem run_simulation_cells_consistent:
  assumes "valid_config cfg" and "uniform01 bg"
  shows "((case seed cfg of None \<Rightarrow> True | Some n \<Rightarrow> 0 \<le> n)
            \<longrightarrow> (\<exists>res. run_simulation bg env cfg = Inr res))
     \<and> (\<forall>res. run_simulation bg env cfg = Inr res
            \<longrightarrow> has_shape (period_returns res) (nat (num_simulations cfg)) (nat (num_periods cfg))
              \<and> has_shape (setup_indices res) (nat (num_simulations cfg)) (nat (num_periods cfg))
              \<and> has_shape (scenario_indices res) (nat (num_simulations cfg)) (nat (num_periods cfg))
              \<and> (\<forall>i j. i < nat (num_simulations cfg) \<longrightarrow> j < nat (num_periods cfg)
                    \<longrightarrow> setup_indices res ! i ! j < length (setups cfg)
                      \<and> scenario_indices res ! i ! j
                          < length (scenarios (setups cfg ! (setup_indices res ! i ! j)))
                      \<and> period_returns res ! i ! j
                          = return_pct (scenarios (setups cfg ! (setup_indices res ! i ! j))
                                          ! (scenario_indices res ! i ! j))))"
proof (intro conjI impI allI)
  assume "case seed cfg of None \<Rightarrow> True | Some n \<Rightarrow> 0 \<le> n"
  from default_rng_ok[OF this, of bg "os_entropy env"]
  obtain g where "default_rng bg (os_entropy env) (seed cfg) = Inr g" ..
  from run_simulation_shape[OF assms this] show "\<exists>res. run_simulation bg env cfg = Inr res"
    by blast
next
  fix res
  assume run: "run_simulation bg env cfg = Inr res"
  let ?N = "nat (num_simulations cfg)" and ?T = "nat (num_periods cfg)"
  from run_simulation_Inr_rng[OF run]
  obtain g where "default_rng bg (os_entropy env) (seed cfg) = Inr g" ..
  from run_simulation_shape[OF assms this]
  obtain idx sc ret where eq: "run_simulation bg env cfg = Inr (assemble_result cfg idx sc ret)"
    and l: "length idx = ?N * ?T" "length sc = length idx" "length ret = length idx"
    and c: "\<forall>p < length idx. cell_ok (setups cfg) (idx ! p) (sc ! p) (ret ! p)"
    by blast
  have res: "res = assemble_result cfg idx sc ret" using run eq by simp
  note r = assemble_result_simps(2,3,4)[of cfg idx sc ret, folded res]
  note sh = assemble_result_shape[OF l, folded res]
  show "has_shape (period_returns res) ?N ?T" by (rule sh(1))
  show "has_shape (setup_indices res) ?N ?T" by (rule sh(2))
  show "has_shape (scenario_indices res) ?N ?T" by (rule sh(3))
  fix i j
  assume i: "i < ?N" and j: "j < ?T"
  let ?p = "i * ?T + j"
  have p: "?p < length idx" using cell_index[OF i j] l(1) by simp
  have "period_returns res ! i ! j = ret ! ?p" "setup_indices res ! i ! j = idx ! ?p"
    "scenario_indices res ! i ! j = sc ! ?p"
    using i j l by (simp_all add: r reshape_nth)
  moreover have "cell_ok (setups cfg) (idx ! ?p) (sc ! ?p) (ret ! ?p)" using c p by blast
  ultimately show "setup_indices res ! i ! j < length (setups cfg)"
    "scenario_indices res ! i ! j < length (scenarios (setups cfg ! (setup_indices res ! i ! j)))"
    "period_returns res ! i ! j
        = return_pct (scenarios (setups cfg ! (setup_indices res ! i ! j))
                                  ! (scenario_indices res ! i ! j))"
    by (simp_all add: cell_ok_def)
qed

theorem run_simulation_cells_consistent_witness:
  "valid_config demo_config \<and> uniform01 lcg_gen
   \<and> (\<exists>res. run_simulation lcg_gen env_a demo_config = Inr res
        \<and> has_shape (period_returns res) 2 3
        \<and> setup_indices res ! 1 ! 2 < 2
        \<and> period_returns res ! 1 ! 2
            = return_pct (scenarios (setups demo_config ! (setup_indices res ! 1 ! 2))
                            ! (scenario_indices res ! 1 ! 2)))"
proof -
  note t = run_simulation_cells_consistent[OF valid_demo_config uniform01_lcg, of env_a]
  have sd: "case seed demo_config of None \<Rightarrow> True | Some n \<Rightarrow> 0 \<le> n"
    by (simp add: demo_config_def mk_config_def)
  have n: "nat (num_simulations demo_config) = 2" "nat (num_periods demo_config) = 3"
    "length (setups demo_config) = 2"
    by (simp_all add: demo_config_def mk_config_def)
  from t sd obtain res where r: "run_simulation lcg_gen env_a demo_config = Inr res" by blast
  have "has_shape (period_returns res) 2 3" using t r n by metis
  moreover have "setup_indices res ! 1 ! 2 < 2
      \<and> period_returns res ! 1 ! 2
            = return_pct (scenarios (setups demo_config ! (setup_indices res ! 1 ! 2))
                            ! (scenario_indices res ! 1 ! 2))"
  proof -
    have "(1::nat) < nat (num_simulations demo_config)" "(2::nat) < nat (num_periods demo_config)"
      using n by simp_all
    then show ?thesis using t r n(3) by metis
  qed
  ultimately show ?thesis using r valid_demo_config uniform01_lcg by blast
qed

subsection \<open>Positive portfolio values\<close>

lemma effective_kelly_pos:
  assumes "valid_config cfg" and "s \<in> set (setups cfg)"
  shows "0 < get_effective_kelly cfg s"
proof (cases "kelly_fraction s")
  case None
  then show ?thesis using valid_config_facts(5)[OF assms(1)] by (simp add: get_effective_kelly_def)
next
  case (Some k)
  have "setup_post_init s = Inr ()"
    using valid_config_facts(6)[OF assms] by (simp add: valid_setup_def)
  then have "0 < k" using Some
    by (auto simp: setup_post_init_def Let_def split: if_splits)
  then show ?thesis using Some by (simp add: get_effective_kelly_def)
qed

lemma solvent_if_fraction_le_1:
  assumes v: "valid_config cfg"
    and le: "\<forall>s \<in> set (setups cfg). get_effective_kelly cfg s \<le> 1"
  shows "solvent_config cfg"
  unfolding solvent_config_def
proof (intro ballI)
  fix s sc assume s: "s \<in> set (setups cfg)" and sc: "sc \<in> set (scenarios s)"
  have r: "- 1 < return_pct sc"
    using valid_setup_scenarios(2)[OF valid_config_facts(6)[OF v s] sc] .
  have f0: "0 < get_effective_kelly cfg s" using effective_kelly_pos[OF v s] .
  have f1: "get_effective_kelly cfg s \<le> 1" using le s by blast
  show "0 < 1 + get_effective_kelly cfg s * return_pct sc"
  proof (cases "0 \<le> return_pct sc")
    case True
    then have "0 \<le> get_effective_kelly cfg s * return_pct sc" using f0 by simp
    then show ?thesis by linarith
  next
    case False
    then have "1 * return_pct sc \<le> get_effective_kelly cfg s * return_pct sc"
      using f1 by (intro mult_right_mono_neg) simp_all
    then show ?thesis using r by linarith
  qed
qed





subsection \<open>Determinism under a seed\<close>

lemma agree_below_scatter:
  assumes a: "agree_below idx k xs ys" and w: "length ws = count_true (map (\<lambda>x. x = k) idx)"
  shows "agree_below idx (Suc k) (scatter (map (\<lambda>x. x = k) idx) ws xs)
           (scatter (map (\<lambda>x. x = k) idx) ws ys)"
  unfolding agree_below_def
proof (intro conjI allI impI)
  let ?m = "map (\<lambda>x. x = k) idx"
  have l: "length xs = length idx" "length ys = length idx"
    using a by (simp_all add: agree_below_def)
  show "length (scatter ?m ws xs) = length idx" "length (scatter ?m ws ys) = length idx"
    using l by (simp_all add: length_scatter)
  fix p assume p: "p < length idx" and lt: "idx ! p < Suc k"
  have n1: "scatter ?m ws xs ! p = (if ?m ! p then ws ! rank ?m p else xs ! p)"
    using l w p by (intro scatter_nth) simp_all
  have n2: "scatter ?m ws ys ! p = (if ?m ! p then ws ! rank ?m p else ys ! p)"
    using l w p by (intro scatter_nth) simp_all
  show "scatter ?m ws xs ! p = scatter ?m ws ys ! p"
  proof (cases "idx ! p = k")
    case True
    then show ?thesis using n1 n2 p by simp
  next
    case False
    then have "idx ! p < k" using lt by simp
    then have "xs ! p = ys ! p" using a p by (simp add: agree_below_def)
    then show ?thesis using n1 n2 False p by simp
  qed
qed

lemma agree_below_skip:
  assumes a: "agree_below idx k xs ys" and z: "count_true (map (\<lambda>x. x = k) idx) = 0"
  shows "agree_below idx (Suc k) xs ys"
  unfolding agree_below_def
proof (intro conjI allI impI)
  show "length xs = length idx" "length ys = length idx"
    using a by (simp_all add: agree_below_def)
  fix p assume p: "p < length idx" and lt: "idx ! p < Suc k"
  have "\<not> map (\<lambda>x. x = k) idx ! p" using z p by (intro count_true_0) simp_all
  then have "idx ! p < k" using lt p by simp
  then show "xs ! p = ys ! p" using a p by (simp add: agree_below_def)
qed

text \<open>Two runs of the loop from arrays that agree on the cells already written.\<close>

lemma scenario_loop_agree:
  "agree_below idx k sc1 sc2 \<Longrightarrow> agree_below idx k ret1 ret2 \<Longrightarrow>
   same_outcome idx (k + length rest)
     (scenario_loop bg idx k rest (g, sc1, ret1)) (scenario_loop bg idx k rest (g, sc2, ret2))"
proof (induction rest arbitrary: k g sc1 sc2 ret1 ret2)
  case Nil
  then show ?case by (simp add: same_outcome_def)
next
  case (Cons s rest)
  let ?mask = "map (\<lambda>x. x = k) idx"
  let ?n = "count_true ?mask"
  have kk: "Suc k + length rest = k + length (s # rest)" by simp
  have l: "length sc1 = length idx" "length sc2 = length idx"
    "length ret1 = length idx" "length ret2 = length idx"
    using Cons.prems by (simp_all add: agree_below_def)
  show ?case
  proof (cases "?n = 0")
    case True
    have "same_outcome idx (Suc k + length rest)
        (scenario_loop bg idx (Suc k) rest (g, sc1, ret1))
        (scenario_loop bg idx (Suc k) rest (g, sc2, ret2))"
      using Cons.prems True by (intro Cons.IH agree_below_skip)
    then show ?thesis unfolding scenario_loop_skip[OF True] kk .
  next
    case False
    note nz = this
    show ?thesis
    proof (cases "sample_categorical bg g (map Scenario.probability (scenarios s)) [int ?n]")
      case (Inl e)
      have "scenario_loop bg idx k (s # rest) (g, a, b) = Inl e" for a b
        using nz Inl by (simp add: Let_def)
      then show ?thesis by (simp add: same_outcome_def)
    next
      case (Inr r)
      obtain sc_idx g' where r: "r = (sc_idx, g')" by (cases r)
      note smp = Inr[unfolded r]
      consider (err) e where "\<forall>xs. length xs = length idx \<longrightarrow> mask_assign ?mask sc_idx xs = Inl e"
        | (ok) ws where "length ws = ?n"
            "\<forall>xs. length xs = length idx \<longrightarrow> mask_assign ?mask sc_idx xs = Inr (scatter ?mask ws xs)"
        using mask_assign_cases[of "length idx" ?mask sc_idx] by blast
      then show ?thesis
      proof cases
        case err
        have "scenario_loop bg idx k (s # rest) (g, a, b) = Inl e" if "length a = length idx" for a b
          using nz smp err that by (simp add: Let_def)
        then show ?thesis using l by (simp add: same_outcome_def)
      next
        case ok
        note ma1 = this
        show ?thesis
        proof (cases "take_indices (map return_pct (scenarios s)) sc_idx")
          case (Inl e)
          have "scenario_loop bg idx k (s # rest) (g, a, b) = Inl e" if "length a = length idx" for a b
            using nz smp ma1(2) that Inl by (simp add: Let_def)
          then show ?thesis using l by (simp add: same_outcome_def)
        next
          case (Inr vals)
          note ti = this
          consider (err2) e where
              "\<forall>xs. length xs = length idx \<longrightarrow> mask_assign ?mask vals xs = Inl e"
            | (ok2) vs where "length vs = ?n"
              "\<forall>xs. length xs = length idx \<longrightarrow> mask_assign ?mask vals xs = Inr (scatter ?mask vs xs)"
            using mask_assign_cases[of "length idx" ?mask vals] by blast
          then show ?thesis
          proof cases
            case err2
            have "scenario_loop bg idx k (s # rest) (g, a, b) = Inl e"
              if "length a = length idx" "length b = length idx" for a b
              using nz smp ma1(2) that ti err2 by (simp add: Let_def)
            then show ?thesis using l by (simp add: same_outcome_def)
          next
            case ok2
            have step: "scenario_loop bg idx k (s # rest) (g, a, b) =
                scenario_loop bg idx (Suc k) rest (g', scatter ?mask ws a, scatter ?mask vs b)"
              if "length a = length idx" "length b = length idx" for a b
              using ma1(2) ok2(2) that by (intro scenario_loop_draw[OF nz smp _ ti]) simp_all
            have "same_outcome idx (Suc k + length rest)
                (scenario_loop bg idx (Suc k) rest (g', scatter ?mask ws sc1, scatter ?mask vs ret1))
                (scenario_loop bg idx (Suc k) rest (g', scatter ?mask ws sc2, scatter ?mask vs ret2))"
              using Cons.prems ma1(1) ok2(1) by (intro Cons.IH agree_below_scatter)
            then show ?thesis unfolding step[OF l(1,3)] step[OF l(2,4)] kk .
          qed
        qed
      qed
    qed
  qed
qed

lemma agree_below_all:
  assumes "agree_below idx k xs ys" and "\<forall>i \<in> set idx. i < k"
  shows "xs = ys"
proof (rule nth_equalityI)
  show "length xs = length ys" using assms(1) by (simp add: agree_below_def)
  fix p assume "p < length xs"
  then have p: "p < length idx" using assms(1) by (simp add: agree_below_def)
  then have "idx ! p < k" using assms(2) by simp
  then show "xs ! p = ys ! p" using assms(1) p by (simp add: agree_below_def)
qed

lemma run_simulation_unfold:
  "run_simulation bg env cfg =
     (case default_rng bg (os_entropy env) (seed cfg) of
        Inl e \<Rightarrow> Inl e
      | Inr rng \<Rightarrow>
          (case sample_categorical bg rng (map Setup.probability (setups cfg))
                  [num_simulations cfg, num_periods cfg] of
             Inl e \<Rightarrow> Inl e
           | Inr (idx, rng1) \<Rightarrow>
               (case scenario_loop bg idx 0 (setups cfg)
                       (rng1, fst (start_arrays env cfg), snd (start_arrays env cfg)) of
                  Inl e \<Rightarrow> Inl e
                | Inr (rng2, sc, ret) \<Rightarrow> finish_run cfg idx sc ret)))"
  unfolding run_simulation_def finish_run_def start_arrays_def Let_def fst_conv snd_conv
  by (rule refl)

text \<open>
  Claim C3. For every config with an integer seed and every generator whose doubles lie in
  [0, 1), the outcome of a run (the result with its four matrices, or the exception) does
  not depend on what the run reads from outside its config: the entropy of the operating
  system and the contents of the memory that \<open>np.empty\<close> hands out. Two runs on the
  same config return the same.
\<close>

theorem run_simulation_deterministic:
  assumes u: "uniform01 bg" and sd: "seed cfg = Some n"
  shows "run_simulation bg env1 cfg = run_simulation bg env2 cfg"
proof -
  let ?probs = "map Setup.probability (setups cfg)"
  let ?dims = "[num_simulations cfg, num_periods cfg]"
  have rng: "default_rng bg (os_entropy env1) (seed cfg) = default_rng bg (os_entropy env2) (seed cfg)"
    by (simp add: default_rng_def sd)
  show ?thesis
  proof (cases "default_rng bg (os_entropy env2) (seed cfg)")
    case (Inl e)
    then show ?thesis unfolding run_simulation_unfold rng by simp
  next
    case (Inr g)
    note g = this
    show ?thesis
    proof (cases "sample_categorical bg g ?probs ?dims")
      case (Inl e)
      then show ?thesis unfolding run_simulation_unfold rng g by simp
    next
      case (Inr r)
      obtain idx g1 where r: "r = (idx, g1)" by (cases r)
      note smp = Inr[unfolded r]
      from sample_categorical_Inr[OF u smp]
      have li: "length idx = nat (prod_list ?dims)" and bnd: "\<forall>i \<in> set idx. i < length (setups cfg)"
        and nn: "0 \<le> num_simulations cfg" by simp_all
      have l: "length idx = nat (num_simulations cfg) * nat (num_periods cfg)"
        using li nn by (simp add: nat_mult_distrib)
      have a1: "agree_below idx 0 (fst (start_arrays env1 cfg)) (fst (start_arrays env2 cfg))"
        by (simp add: agree_below_def start_arrays_def np_empty_def l)
      have a2: "agree_below idx 0 (snd (start_arrays env1 cfg)) (snd (start_arrays env2 cfg))"
        by (simp add: agree_below_def start_arrays_def np_empty_def l)
      let ?L1 = "scenario_loop bg idx 0 (setups cfg)
          (g1, fst (start_arrays env1 cfg), snd (start_arrays env1 cfg))"
      let ?L2 = "scenario_loop bg idx 0 (setups cfg)
          (g1, fst (start_arrays env2 cfg), snd (start_arrays env2 cfg))"
      have so: "same_outcome idx (0 + length (setups cfg)) ?L1 ?L2"
        using a1 a2 by (rule scenario_loop_agree)
      have "?L1 = ?L2"
      proof -
        consider (err) e where "?L1 = Inl e" "?L2 = Inl e"
          | (ok) g2 a1 b1 a2 b2 where "?L1 = Inr (g2, a1, b1)" "?L2 = Inr (g2, a2, b2)"
              "agree_below idx (0 + length (setups cfg)) a1 a2"
              "agree_below idx (0 + length (setups cfg)) b1 b2"
          using so unfolding same_outcome_def by blast
        then show ?thesis
        proof cases
          case err
          then show ?thesis by simp
        next
          case ok
          have "a1 = a2" using ok(3) bnd by (intro agree_below_all[of idx "0 + length (setups cfg)"]) simp_all
          moreover have "b1 = b2" using ok(4) bnd by (intro agree_below_all[of idx "0 + length (setups cfg)"]) simp_all
          ultimately show ?thesis using ok(1,2) by simp
        qed
      qed
      then show ?thesis unfolding run_simulation_unfold rng g by (simp only: smp sum.case prod.case)
    qed
  qed
qed

theorem run_simulation_deterministic_witness:
  "uniform01 lcg_gen \<and> seed demo_config = Some 42
   \<and> run_simulation lcg_gen env_a demo_config = run_simulation lcg_gen env_b demo_config"
proof -
  have sd: "seed demo_config = Some 42" by (simp add: demo_config_def mk_config_def)
  from run_simulation_deterministic[OF uniform01_lcg sd, of env_a env_b]
  show ?thesis using uniform01_lcg sd by simp
qed

end
